theory Spec2Isabelle
  imports Complex_Main "HOL-Library.Word"
begin

section \<open>JavaScript numbers\<close>

text \<open>
  Every number of \<^verbatim>\<open>App.tsx\<close> is a JavaScript Number, an IEEE 754 binary64 value.
  A finite double is a rational number, so the model computes with \<^typ>\<open>rat\<close> and rounds
  the exact result of every operation to the nearest double, ties to the even significand
  (\<open>fl\<close>). A double has 53 significant bits: a value \<open>a\<close> with \<open>2^e \<le> a < 2^(e+1)\<close> is
  rounded to a multiple of \<open>2^(e-52)\<close>; below \<open>2^-1022\<close> the spacing stays \<open>2^-1074\<close>
  (subnormal numbers). Overflow to infinity (beyond \<open>2^1024\<close>) is not modelled: no quantity
  of the program comes near it.
\<close>

definition round_half_even :: "rat \<Rightarrow> int" where
  "round_half_even x =
     (let f = \<lfloor>x\<rfloor>; d = x - of_int f
      in if d < 1 / 2 then f
         else if 1 / 2 < d then f + 1
         else if even f then f else f + 1)"

text \<open>The number of binary digits of a positive integer.\<close>

function bit_length :: "int \<Rightarrow> int" where
  "bit_length n = (if n \<le> 0 then 0 else 1 + bit_length (n div 2))"
  by pat_completeness auto
termination
  by (relation "measure nat") auto

declare bit_length.simps [simp del]

text \<open>The binary exponent \<open>\<lfloor>log\<^sub>2 x\<rfloor>\<close> of a positive rational.\<close>

definition exponent2 :: "rat \<Rightarrow> int" where
  "exponent2 x =
     (let (p, q) = quotient_of x;
          d = bit_length p - bit_length q
      in if power_int 2 d \<le> x then d else d - 1)"

definition fl :: "rat \<Rightarrow> rat" where
  "fl x =
     (if x = 0 then 0
      else let a = \<bar>x\<bar>;
               e = max (exponent2 a) (- 1022);
               u = power_int 2 (e - 52)
           in sgn x * of_int (round_half_even (a / u)) * u)"

definition js_add :: "rat \<Rightarrow> rat \<Rightarrow> rat" where
  "js_add a b = fl (a + b)"

definition js_sub :: "rat \<Rightarrow> rat \<Rightarrow> rat" where
  "js_sub a b = fl (a - b)"

definition js_mul :: "rat \<Rightarrow> rat \<Rightarrow> rat" where
  "js_mul a b = fl (a * b)"

text \<open>Division by a divisor other than zero (each caller handles zero itself).\<close>

definition js_div :: "rat \<Rightarrow> rat \<Rightarrow> rat" where
  "js_div a b = fl (a / b)"

text \<open>The literals \<^verbatim>\<open>0.8\<close> and \<^verbatim>\<open>0.1\<close>: the doubles nearest to 8/10 and 1/10.\<close>

definition lit_0_8 :: rat where
  "lit_0_8 = fl (8 / 10)"

definition lit_0_1 :: rat where
  "lit_0_1 = fl (1 / 10)"

section \<open>Numbers as text\<close>

definition digit_char :: "nat \<Rightarrow> char" where
  "digit_char d = ''0123456789'' ! d"

function show_nat :: "nat \<Rightarrow> string" where
  "show_nat n = (if n < 10 then [digit_char n] else show_nat (n div 10) @ [digit_char (n mod 10)])"
  by pat_completeness auto
termination
  by (relation "measure id") auto

declare show_nat.simps [simp del]

text \<open>The last \<open>k\<close> decimal digits of \<open>n\<close>, with leading zeros.\<close>

fun show_digits :: "nat \<Rightarrow> nat \<Rightarrow> string" where
  "show_digits 0 n = []"
| "show_digits (Suc k) n = show_digits k (n div 10) @ [digit_char (n mod 10)]"

text \<open>
  \<^verbatim>\<open>x.toFixed(fd)\<close> for a finite \<open>x\<close> of magnitude below \<open>10^21\<close> (ECMAScript,
  Number.prototype.toFixed): with \<open>n\<close> the integer for which \<open>n / 10^fd - x\<close> is closest to
  zero, the larger one of two, the digits of \<open>n\<close> with a point before the last \<open>fd\<close>;
  a negative \<open>x\<close> is written as a minus sign and the text of \<open>-x\<close>. The distance is
  taken from the exact value of the double.
\<close>

definition toFixed :: "nat \<Rightarrow> rat \<Rightarrow> string" where
  "toFixed fd x =
     (let a = \<bar>x\<bar>;
          n = nat \<lfloor>a * 10 ^ fd + 1 / 2\<rfloor>;
          s = show_nat (n div 10 ^ fd) @ (if fd = 0 then [] else ''.'' @ show_digits fd n)
      in if x < 0 then ''-'' @ s else s)"

definition digit_val :: "char \<Rightarrow> nat" where
  "digit_val c = of_char c - 48"

definition parse_nat :: "string \<Rightarrow> nat" where
  "parse_nat s = foldl (\<lambda>acc c. 10 * acc + digit_val c) 0 s"

text \<open>
  \<^verbatim>\<open>parseFloat\<close> on the texts that \<open>toFixed\<close> gives for a number that is not negative:
  digits, then possibly a point and more digits. The result is kept as the decimal that was
  read. The Number is the double nearest to it, and printing that double shows the fewest
  digits that read back to the same double: a decimal of at most 15 significant digits reads
  to a double that prints as the same decimal without its trailing zeros, so
  \<open>number_to_string\<close> prints the decimal in that form.
\<close>

definition parseFloat :: "string \<Rightarrow> rat" where
  "parseFloat s =
     (let ip = takeWhile (\<lambda>c. c \<noteq> CHR ''.'') s;
          fp = drop 1 (dropWhile (\<lambda>c. c \<noteq> CHR ''.'') s)
      in of_nat (parse_nat ip) + of_nat (parse_nat fp) / 10 ^ length fp)"

text \<open>The text of \<open>n\<close> hundredths: at most two fraction digits, no trailing zero.\<close>

definition hundredths_text :: "nat \<Rightarrow> string" where
  "hundredths_text n =
     show_nat (n div 100) @
     (if n mod 100 = 0 then []
      else ''.'' @ [digit_char (n mod 100 div 10)] @
           (if n mod 10 = 0 then [] else [digit_char (n mod 10)]))"

text \<open>The text of a decimal that is not negative and has at most two fraction digits.\<close>

definition number_to_string :: "rat \<Rightarrow> string" where
  "number_to_string v = hundredths_text (nat \<lfloor>v * 100\<rfloor>)"

section \<open>Files, data URLs, images and the canvas\<close>

type_synonym byte = "8 word"

text \<open>A \<^verbatim>\<open>File\<close>: its name and its bytes; \<^verbatim>\<open>file.size\<close> is the number of bytes.\<close>

record File =
  file_name :: string
  file_type :: string
  file_bytes :: "byte list"

definition file_size :: "File \<Rightarrow> nat" where
  "file_size file = length (file_bytes file)"

text \<open>
  A \<^verbatim>\<open>data:\<close> URL carries a media type and the bytes of its body (written in base64 in
  the text of the URL). Fetching it and taking the response's blob gives those bytes back.
\<close>

datatype data_url = DataURL (media_type: string) (body: "byte list")

definition readAsDataURL :: "File \<Rightarrow> data_url" where
  "readAsDataURL file = DataURL (file_type file) (file_bytes file)"

definition fetch_blob :: "data_url \<Rightarrow> byte list" where
  "fetch_blob u = body u"

record image =
  img_width :: nat
  img_height :: nat
  img_pixels :: "byte list"

text \<open>
  The canvas: its two dimensions and what \<^verbatim>\<open>drawImage(img, 0, 0, width, height)\<close> put
  on it (the image and the size it was drawn at).
\<close>

record canvas =
  canvas_width :: nat
  canvas_height :: nat
  canvas_drawn :: "(image \<times> rat \<times> rat) option"

text \<open>
  \<^verbatim>\<open>canvas.width\<close> and \<^verbatim>\<open>canvas.height\<close> are attributes of Web IDL type
  \<^verbatim>\<open>unsigned long\<close>. Assigning a Number converts it first: the fraction is cut off
  (towards zero) and the integer is reduced modulo \<open>2^32\<close>. The attribute then reflects
  the content attribute, which takes a value up to 2147483647 and the default (300 for the
  width, 150 for the height) in place of a larger one.
\<close>

definition to_unsigned_long :: "rat \<Rightarrow> nat" where
  "to_unsigned_long x = nat ((if x < 0 then - \<lfloor>- x\<rfloor> else \<lfloor>x\<rfloor>) mod 2 ^ 32)"

definition set_canvas_dim :: "nat \<Rightarrow> rat \<Rightarrow> nat" where
  "set_canvas_dim dflt x = (let n = to_unsigned_long x in if n \<le> 2147483647 then n else dflt)"

text \<open>
  What the browser does and the source only calls: decoding the bytes of a data URL as an
  image (\<open>None\<close> when they are not an image: \<^verbatim>\<open>img.onload\<close> is never called), and
  \<^verbatim>\<open>canvas.toDataURL(type, quality)\<close>.
\<close>

record platform =
  decode :: "data_url \<Rightarrow> image option"
  toDataURL :: "canvas \<Rightarrow> string \<Rightarrow> rat \<Rightarrow> data_url"

section \<open>processImage\<close>

record ProcessedImage =
  name :: string
  url :: data_url
  size_p :: nat
  originalSize :: nat

text \<open>Lines 24 to 32: the width and height the image is drawn at.\<close>

definition target_size :: "nat \<Rightarrow> nat \<Rightarrow> rat \<times> rat" where
  "target_size w h =
     (if 1600 < w
      then let ratio = js_div 1600 (of_nat w) in (1600, js_mul (of_nat h) ratio)
      else (of_nat w, of_nat h))"

text \<open>Lines 23 to 37: the canvas after it was sized and drawn on.\<close>

definition render :: "image \<Rightarrow> canvas" where
  "render img =
     (let (width, height) = target_size (img_width img) (img_height img)
      in \<lparr>canvas_width = set_canvas_dim 300 width,
          canvas_height = set_canvas_dim 150 height,
          canvas_drawn = Some (img, width, height)\<rparr>)"

text \<open>
  The variables of the quality search, and the list of the qualities that
  \<^verbatim>\<open>toDataURL\<close> was called with so far (kept for the proofs only).
\<close>

record search_state =
  quality :: rat
  webpUrl :: data_url
  blob :: "byte list"
  encodes :: "rat list"

text \<open>One encode: \<^verbatim>\<open>toDataURL\<close>, \<^verbatim>\<open>fetch\<close>, \<^verbatim>\<open>response.blob()\<close>.\<close>

definition encode_at :: "platform \<Rightarrow> canvas \<Rightarrow> rat \<Rightarrow> rat list \<Rightarrow> search_state" where
  "encode_at pf cv q tried =
     (let u = toDataURL pf cv ''image/webp'' q
      in \<lparr>quality = q, webpUrl = u, blob = fetch_blob u, encodes = tried @ [q]\<rparr>)"

text \<open>Lines 46 to 51. The loop is not assumed to end: \<open>None\<close> is a loop that runs forever.\<close>

partial_function (option) quality_loop ::
  "platform \<Rightarrow> canvas \<Rightarrow> nat \<Rightarrow> search_state \<Rightarrow> search_state option" where
  "quality_loop pf cv fsize s =
     (if fsize < length (blob s) \<and> lit_0_1 < quality s
      then quality_loop pf cv fsize (encode_at pf cv (js_sub (quality s) lit_0_1) (encodes s))
      else Some s)"

declare quality_loop.simps [code]

text \<open>Lines 40 to 51.\<close>

definition quality_search :: "platform \<Rightarrow> canvas \<Rightarrow> nat \<Rightarrow> search_state option" where
  "quality_search pf cv fsize = quality_loop pf cv fsize (encode_at pf cv lit_0_8 [])"

text \<open>
  \<^verbatim>\<open>s.replace(/\.[^/.]+$/, '')\<close>: the first match from the left is removed. A match is
  a point followed, up to the end of the text, by one or more characters that are neither a
  slash nor a point.
\<close>

definition ext_match :: "string \<Rightarrow> bool" where
  "ext_match s =
     (case s of
        [] \<Rightarrow> False
      | c # cs \<Rightarrow> c = CHR ''.'' \<and> cs \<noteq> [] \<and> (\<forall>d \<in> set cs. d \<noteq> CHR ''/'' \<and> d \<noteq> CHR ''.''))"

fun strip_ext :: "string \<Rightarrow> string" where
  "strip_ext [] = []"
| "strip_ext (c # cs) = (if ext_match (c # cs) then [] else c # strip_ext cs)"

text \<open>
  Lines 17 to 74. The promise is resolved in \<^verbatim>\<open>img.onload\<close> only, and nothing rejects
  it: \<open>None\<close> is a promise that is never settled.
\<close>

definition processImage :: "platform \<Rightarrow> File \<Rightarrow> ProcessedImage option" where
  "processImage pf file =
     (let result = readAsDataURL file
      in case decode pf result of
           None \<Rightarrow> None
         | Some img \<Rightarrow>
             (case quality_search pf (render img) (file_size file) of
                None \<Rightarrow> None
              | Some s \<Rightarrow>
                  Some (if file_size file \<le> length (blob s)
                        then \<lparr>name = file_name file, url = result,
                              size_p = file_size file, originalSize = file_size file\<rparr>
                        else \<lparr>name = strip_ext (file_name file) @ ''-optimized.webp'',
                              url = webpUrl s,
                              size_p = length (blob s), originalSize = file_size file\<rparr>)))"

section \<open>onDrop\<close>

text \<open>
  \<^verbatim>\<open>Promise.all\<close> keeps one slot for each promise and a count of the promises not yet
  fulfilled. When the promise at index \<open>i\<close> is fulfilled, its value is written to slot
  \<open>i\<close> (once) and the count goes down; at zero the joined promise is fulfilled with the
  slots. \<open>order\<close> lists the indices in the order in which the pipelines complete; a
  promise that is never settled (\<open>None\<close>) never writes its slot. When the completions are
  used up and the count is not zero, the joined promise stays pending (\<open>None\<close>).
\<close>

fun promise_all_run :: "'a option list \<Rightarrow> nat list \<Rightarrow> 'a option list \<Rightarrow> nat \<Rightarrow> 'a list option" where
  "promise_all_run ps [] vals remaining = (if remaining = 0 then Some (map the vals) else None)"
| "promise_all_run ps (i # order) vals remaining =
     (if remaining = 0 then Some (map the vals)
      else if i < length ps \<and> ps ! i \<noteq> None \<and> vals ! i = None
           then promise_all_run ps order (vals[i := ps ! i]) (remaining - 1)
           else promise_all_run ps order vals remaining)"

definition promise_all :: "'a option list \<Rightarrow> nat list \<Rightarrow> 'a list option" where
  "promise_all ps order = promise_all_run ps order (replicate (length ps) None) (length ps)"

record app_state =
  processedImages :: "ProcessedImage list"
  isProcessing :: bool

text \<open>Lines 76 to 83. An \<^verbatim>\<open>await\<close> on a promise that stays pending never resumes.\<close>

definition onDrop :: "platform \<Rightarrow> File list \<Rightarrow> nat list \<Rightarrow> app_state \<Rightarrow> app_state" where
  "onDrop pf acceptedFiles order st =
     (let st1 = st\<lparr>isProcessing := True\<rparr>
      in case promise_all (map (processImage pf) acceptedFiles) order of
           None \<Rightarrow> st1
         | Some processed \<Rightarrow> st1\<lparr>processedImages := processed, isProcessing := False\<rparr>)"

section \<open>formatSize and calculateTotalSavings\<close>

definition sizes :: "string list" where
  "sizes = [''Bytes'', ''KB'', ''MB'']"

text \<open>
  Reading an array at an index and appending the element to a text: an index that is
  negative or past the end gives \<^verbatim>\<open>undefined\<close>, whose text is \<^verbatim>\<open>undefined\<close>.
\<close>

definition element_text :: "string list \<Rightarrow> int \<Rightarrow> string" where
  "element_text xs i = (if 0 \<le> i \<and> nat i < length xs then xs ! nat i else ''undefined'')"

text \<open>
  Lines 113 to 119. \<^verbatim>\<open>Math.log\<close> is what the engine computes, a double for a double, and
  is a parameter: ECMAScript leaves its values to the implementation. The index is the
  quotient of two such logarithms, divided in doubles and rounded down. \<^verbatim>\<open>Math.pow(k, i)\<close>
  is the power of two \<open>1024^i\<close>, which is a double (an engine whose \<^verbatim>\<open>Math.log(1024)\<close> is
  zero is not modelled). The byte count is the size of a file, an integer that a double
  holds.
\<close>

definition formatSize :: "(rat \<Rightarrow> rat) \<Rightarrow> nat \<Rightarrow> string" where
  "formatSize Math_log bytes =
     (if bytes = 0 then ''0 Bytes''
      else let k = 1024;
               i = \<lfloor>js_div (Math_log (of_nat bytes)) (Math_log k)\<rfloor>
           in number_to_string (parseFloat (toFixed 2 (js_div (of_nat bytes) (power_int k i))))
              @ '' '' @ element_text sizes i)"

text \<open>
  Lines 121 to 126. A division by zero gives no finite number: \<^verbatim>\<open>0 / 0\<close> is
  \<^verbatim>\<open>NaN\<close> and a negative number over zero is \<^verbatim>\<open>-Infinity\<close>, which \<^verbatim>\<open>toFixed\<close>
  writes as their names.
\<close>

definition calculateTotalSavings :: "ProcessedImage list \<Rightarrow> string" where
  "calculateTotalSavings imgs =
     (let totalOriginal = foldl (\<lambda>acc img. js_add acc (of_nat (originalSize img))) 0 imgs;
          totalCompressed = foldl (\<lambda>acc img. js_add acc (of_nat (size_p img))) 0 imgs
      in if totalOriginal = 0
         then (if totalCompressed = 0 then ''NaN'' else ''-Infinity'')
         else toFixed 1 (js_mul (js_div (js_sub totalOriginal totalCompressed) totalOriginal) 100))"

section \<open>Definitions for the proofs\<close>

text \<open>
  The qualities that the search can reach, in order: in JavaScript they print as 0.8,
  0.7000000000000001, 0.6000000000000001, 0.5000000000000001, 0.40000000000000013,
  0.30000000000000016, 0.20000000000000015, 0.10000000000000014 and
  1.3877787807814457e-16.
\<close>

definition quality_ladder :: "rat list" where
  "quality_ladder =
     [3602879701896397 / 4503599627370496,
      6305039478318695 / 9007199254740992,
      1351079888211149 / 2251799813685248,
      4503599627370497 / 9007199254740992,
      1801439850948199 / 4503599627370496,
      2702159776422299 / 9007199254740992,
      7205759403792799 / 36028797018963968,
      1801439850948201 / 18014398509481984,
      5 / 36028797018963968]"

text \<open>
  \<open>qs\<close> are the qualities that the loop goes through after \<open>q\<close>: each is the one before
  minus 0.1, as long as the one before is above 0.1.
\<close>

fun ladder_from :: "rat \<Rightarrow> rat list \<Rightarrow> bool" where
  "ladder_from q [] = (\<not> lit_0_1 < q)"
| "ladder_from q (q' # qs) = (lit_0_1 < q \<and> q' = js_sub q lit_0_1 \<and> ladder_from q' qs)"

text \<open>The loop, run along a given list of qualities.\<close>

fun descend :: "platform \<Rightarrow> canvas \<Rightarrow> nat \<Rightarrow> rat list \<Rightarrow> search_state \<Rightarrow> search_state" where
  "descend pf cv fsize [] s = s"
| "descend pf cv fsize (q # qs) s =
     (if fsize < length (blob s) then descend pf cv fsize qs (encode_at pf cv q (encodes s)) else s)"

text \<open>The search state is well formed: it holds the last encode.\<close>

definition encoded :: "platform \<Rightarrow> canvas \<Rightarrow> search_state \<Rightarrow> bool" where
  "encoded pf cv s \<longleftrightarrow>
     encodes s \<noteq> [] \<and> quality s = last (encodes s) \<and>
     webpUrl s = toDataURL pf cv ''image/webp'' (quality s) \<and> blob s = body (webpUrl s)"

text \<open>Every encode but the last was too large and made at a quality above 0.1.\<close>

definition rejected :: "platform \<Rightarrow> canvas \<Rightarrow> nat \<Rightarrow> rat \<Rightarrow> bool" where
  "rejected pf cv fsize q \<longleftrightarrow>
     fsize < length (body (toDataURL pf cv ''image/webp'' q)) \<and> lit_0_1 < q"

text \<open>
  The first eight of them: 0.8 and the seven qualities that follow it down to 0.1, each
  computed from the one before.
\<close>

definition quality_steps :: "rat list" where
  "quality_steps =
     [3602879701896397 / 4503599627370496,
      6305039478318695 / 9007199254740992,
      1351079888211149 / 2251799813685248,
      4503599627370497 / 9007199254740992,
      1801439850948199 / 4503599627370496,
      2702159776422299 / 9007199254740992,
      7205759403792799 / 36028797018963968,
      1801439850948201 / 18014398509481984]"

text \<open>
  The logarithm of fdlibm (the library of V8 and of SpiderMonkey) at a power of two \<open>2^k\<close>:
  \<^verbatim>\<open>k * ln2_hi + k * ln2_lo\<close> in doubles, with the two constants of \<^verbatim>\<open>e_log.c\<close>.
\<close>

definition ln2_hi :: rat where
  "ln2_hi = 2977044471 / 4294967296"

definition ln2_lo :: rat where
  "ln2_lo = 3691024475790907 / 19342813113834066795298816"

definition log_of_power :: "int \<Rightarrow> rat" where
  "log_of_power k = js_add (js_mul (of_int k) ln2_hi) (js_mul (of_int k) ln2_lo)"

text \<open>
  What the proofs ask of \<^verbatim>\<open>Math.log\<close>. It does not decrease from 1 on. For the three
  units moreover: at 1, at 1024 and at \<open>1024^2\<close> it has the values of fdlibm, and just
  before 1024, \<open>1024^2\<close> and \<open>1024^3\<close> it is not above a decimal that lies between the
  logarithm of that number and the logarithm of the power (6.93049 and 6.93147,
  13.8629427 and 13.8629436, 20.79441541587 and 20.79441541680).
\<close>

definition log_monotone :: "(rat \<Rightarrow> rat) \<Rightarrow> bool" where
  "log_monotone Math_log \<longleftrightarrow> (\<forall>x y. 1 \<le> x \<and> x \<le> y \<longrightarrow> Math_log x \<le> Math_log y)"

definition log_ok :: "(rat \<Rightarrow> rat) \<Rightarrow> bool" where
  "log_ok Math_log \<longleftrightarrow>
     log_monotone Math_log \<and> Math_log 1 = 0 \<and>
     Math_log 1024 = log_of_power 10 \<and> Math_log 1048576 = log_of_power 20 \<and>
     Math_log 1023 \<le> 69305 / 10000 \<and>
     Math_log 1048575 \<le> 13862943 / 1000000 \<and>
     Math_log 1073741823 \<le> 207944154165 / 10000000000"

text \<open>
  A logarithm for the examples: that of the largest power of two up to \<open>x\<close>. It has the
  values of fdlibm at the powers of two.
\<close>

definition step_log :: "rat \<Rightarrow> rat" where
  "step_log x = log_of_power (bit_length \<lfloor>x\<rfloor> - 1)"

text \<open>
  Inputs for the examples: two browsers that decode every file that has bytes as an image of
  one pixel and encode every canvas to the same two bytes, or the same one byte, at any
  quality; a file of \<open>n\<close> bytes; three images.
\<close>

definition one_pixel :: image where
  "one_pixel = \<lparr>img_width = 1, img_height = 1, img_pixels = [255, 255, 255, 255]\<rparr>"

definition two_bytes :: platform where
  "two_bytes = \<lparr>decode = (\<lambda>u. if body u = [] then None else Some one_pixel),
                toDataURL = (\<lambda>cv t q. DataURL t [82, 73])\<rparr>"

definition photo :: "nat \<Rightarrow> File" where
  "photo n = \<lparr>file_name = ''photo.png'', file_type = ''image/png'', file_bytes = replicate n 7\<rparr>"

definition one_byte :: platform where
  "one_byte = \<lparr>decode = (\<lambda>u. if body u = [] then None else Some one_pixel),
               toDataURL = (\<lambda>cv t q. DataURL t [82])\<rparr>"

text \<open>
  A browser whose encodes get smaller: three bytes at a quality of 3/4 or more, one byte
  below.
\<close>

definition shrinking :: platform where
  "shrinking = \<lparr>decode = (\<lambda>u. if body u = [] then None else Some one_pixel),
                toDataURL = (\<lambda>cv t q. DataURL t (if q < 3 / 4 then [82] else [82, 73, 70]))\<rparr>"

definition wide :: image where
  "wide = \<lparr>img_width = 2000, img_height = 1001, img_pixels = []\<rparr>"

definition wide_exact :: image where
  "wide_exact = \<lparr>img_width = 1684, img_height = 2105, img_pixels = []\<rparr>"

definition narrow :: image where
  "narrow = \<lparr>img_width = 1600, img_height = 1200, img_pixels = []\<rparr>"

text \<open>
  The state of \<^verbatim>\<open>Promise.all\<close> is consistent: one slot for each promise, and the count
  is the number of empty slots.
\<close>

definition slots_ok :: "'a option list \<Rightarrow> 'a option list \<Rightarrow> nat \<Rightarrow> bool" where
  "slots_ok ps vals remaining \<longleftrightarrow>
     length vals = length ps \<and> remaining = length (filter (\<lambda>v. v = None) vals)"

definition idle :: app_state where
  "idle = \<lparr>processedImages = [], isProcessing = False\<rparr>"

definition two_results :: "ProcessedImage list" where
  "two_results =
     [\<lparr>name = ''a-optimized.webp'', url = DataURL ''image/webp'' (replicate 500 0),
        size_p = 500, originalSize = 1000\<rparr>,
      \<lparr>name = ''b-optimized.webp'', url = DataURL ''image/webp'' (replicate 1800 0),
        size_p = 1800, originalSize = 2000\<rparr>]"

section \<open>Rounding to a double\<close>

text \<open>
  The rounding agrees with what JavaScript computes: \<^verbatim>\<open>0.1 + 0.2\<close> is
  0.30000000000000004 and not the double of \<^verbatim>\<open>0.3\<close>, and \<^verbatim>\<open>0.8 - 0.1\<close> is
  0.7000000000000001.
\<close>

lemma double_examples:
  "js_add (fl (1 / 10)) (fl (2 / 10)) = 1351079888211149 / 4503599627370496"
  "fl (3 / 10) = 5404319552844595 / 18014398509481984"
  "js_sub (fl (8 / 10)) (fl (1 / 10)) = 6305039478318695 / 9007199254740992"
  unfolding js_add_def js_sub_def by code_simp+

lemma bit_length_nonneg: "0 \<le> bit_length n"
  by (induction n rule: bit_length.induct) (subst bit_length.simps, auto)

lemma bit_length_pos: "0 < n \<Longrightarrow> 0 < bit_length n"
  using bit_length_nonneg [of "n div 2"] by (subst bit_length.simps) simp

lemma bit_length_bounds:
  "0 < n \<Longrightarrow> 2 ^ nat (bit_length n - 1) \<le> n \<and> n < 2 ^ nat (bit_length n)"
proof (induction n rule: bit_length.induct)
  case (1 n)
  show ?case
  proof (cases "n = 1")
    case True
    have "bit_length 1 = 1"
      by (subst bit_length.simps, subst bit_length.simps) simp
    with True show ?thesis by simp
  next
    case False
    with "1.prems" have n2: "2 \<le> n" by simp
    then have h: "0 < n div 2" by simp
    have bl: "bit_length n = 1 + bit_length (n div 2)"
      using n2 by (subst bit_length.simps) simp
    from "1.IH" h n2 have ih: "2 ^ nat (bit_length (n div 2) - 1) \<le> n div 2"
      "n div 2 < 2 ^ nat (bit_length (n div 2))" by auto
    have p: "0 < bit_length (n div 2)" using h by (rule bit_length_pos)
    have e1: "nat (bit_length n - 1) = Suc (nat (bit_length (n div 2) - 1))"
      using bl p by simp
    have e2: "nat (bit_length n) = Suc (nat (bit_length (n div 2)))"
      using bl p by simp
    have "2 * (n div 2) \<le> n" by simp
    moreover have "n < 2 * (n div 2 + 1)" by presburger
    ultimately show ?thesis
      using ih unfolding e1 e2 by simp
  qed
qed

lemma power_int_nat_rat: "0 \<le> k \<Longrightarrow> (2::rat) ^ nat k = power_int 2 k"
  by (simp add: power_int_def)

lemma exponent2_bounds:
  assumes "0 < x"
  shows "power_int 2 (exponent2 x) \<le> x" and "x < power_int 2 (exponent2 x + 1)"
proof -
  obtain p q where pq: "quotient_of x = (p, q)" by (cases "quotient_of x")
  then have q: "0 < q" by (rule quotient_of_denom_pos)
  from pq have x: "x = of_int p / of_int q" by (rule quotient_of_div)
  with assms q have p: "0 < p" by (simp add: zero_less_divide_iff)
  define a b where "a = bit_length p" and "b = bit_length q"
  have a: "0 < a" and b: "0 < b" using p q bit_length_pos by (auto simp: a_def b_def)
  from bit_length_bounds[OF p] have "(of_int (2 ^ nat (a - 1)) :: rat) \<le> of_int p" "(of_int p :: rat) < of_int (2 ^ nat a)"
    unfolding a_def by (simp_all only: of_int_le_iff of_int_less_iff)
  then have pa: "power_int 2 (a - 1) \<le> (of_int p :: rat)" "(of_int p :: rat) < power_int 2 a"
    using a by (simp_all add: power_int_def)
  from bit_length_bounds[OF q] have "(of_int (2 ^ nat (b - 1)) :: rat) \<le> of_int q" "(of_int q :: rat) < of_int (2 ^ nat b)"
    unfolding b_def by (simp_all only: of_int_le_iff of_int_less_iff)
  then have qb: "power_int 2 (b - 1) \<le> (of_int q :: rat)" "(of_int q :: rat) < power_int 2 b"
    using b by (simp_all add: power_int_def)
  have qpos: "(0::rat) < of_int q" using q by simp
  have up: "x < power_int 2 (a - b + 1)"
  proof -
    have "power_int (2::rat) (a - b + 1) * power_int 2 (b - 1) = power_int 2 a"
      by (simp add: power_int_add [symmetric])
    moreover have "power_int (2::rat) (a - b + 1) * power_int 2 (b - 1) \<le> power_int 2 (a - b + 1) * of_int q"
      using qb(1) by (intro mult_left_mono) simp_all
    ultimately have "of_int p < power_int (2::rat) (a - b + 1) * of_int q"
      using pa(2) by linarith
    then show ?thesis unfolding x using qpos by (simp add: pos_divide_less_eq)
  qed
  have lo: "power_int 2 (a - b - 1) < x"
  proof -
    have "power_int (2::rat) (a - b - 1) * power_int 2 b = power_int 2 (a - 1)"
      by (simp add: power_int_add [symmetric])
    moreover have "power_int (2::rat) (a - b - 1) * of_int q < power_int 2 (a - b - 1) * power_int 2 b"
      using qb(2) by (intro mult_strict_left_mono) simp_all
    ultimately have "power_int (2::rat) (a - b - 1) * of_int q < of_int p"
      using pa(1) by linarith
    then show ?thesis unfolding x using qpos by (simp add: pos_less_divide_eq)
  qed
  have e: "exponent2 x = (if power_int 2 (a - b) \<le> x then a - b else a - b - 1)"
    unfolding exponent2_def pq a_def b_def by (simp add: Let_def)
  show "power_int 2 (exponent2 x) \<le> x"
    using lo unfolding e by auto
  show "x < power_int 2 (exponent2 x + 1)"
    using up unfolding e by auto
qed

lemma round_half_even_error: "\<bar>of_int (round_half_even y) - y\<bar> \<le> 1 / 2"
proof -
  have "of_int \<lfloor>y\<rfloor> \<le> y" "y < of_int \<lfloor>y\<rfloor> + 1"
    by linarith+
  then show ?thesis
    unfolding round_half_even_def Let_def by (simp add: abs_le_iff)
qed

lemma round_half_even_of_int: "round_half_even (of_int m) = m"
  unfolding round_half_even_def Let_def by simp

lemma pow2_less_imp: "power_int (2::rat) m < power_int 2 n \<Longrightarrow> m < n"
  using power_int_increasing [of n m "2::rat"] by (cases "m < n") simp_all

lemma pow2_le_imp: "power_int (2::rat) m \<le> power_int 2 n \<Longrightarrow> m \<le> n"
  using power_int_strict_increasing [of n m "2::rat"] by (cases "m \<le> n") simp_all

lemma exponent2_ge:
  assumes "power_int 2 k \<le> x"
  shows "k \<le> exponent2 x"
proof -
  have "(0::rat) < power_int 2 k" by simp
  with assms have x: "0 < x" by linarith
  from exponent2_bounds(2)[OF x] assms have "power_int (2::rat) k < power_int 2 (exponent2 x + 1)"
    by linarith
  then have "k < exponent2 x + 1"
    by (rule pow2_less_imp)
  then show ?thesis by simp
qed

lemma exponent2_le:
  assumes "0 < x" "x < power_int 2 k"
  shows "exponent2 x < k"
proof -
  from exponent2_bounds(1)[OF assms(1)] assms(2) have "power_int (2::rat) (exponent2 x) < power_int 2 k"
    by linarith
  then show ?thesis
    by (rule pow2_less_imp)
qed

lemma fl_pos_eq:
  assumes "power_int 2 (- 1022) \<le> x"
  shows "fl x = of_int (round_half_even (x / power_int 2 (exponent2 x - 52))) * power_int 2 (exponent2 x - 52)"
proof -
  have "(0::rat) < power_int 2 (- 1022)" by simp
  with assms have x: "0 < x" by linarith
  have "- 1022 \<le> exponent2 x" using assms by (rule exponent2_ge)
  then have "max (exponent2 x) (- 1022) = exponent2 x" by simp
  then show ?thesis
    using x unfolding fl_def Let_def by simp
qed

lemma fl_error:
  assumes "power_int 2 (- 1022) \<le> x"
  shows "\<bar>fl x - x\<bar> \<le> x / 2 ^ 53"
proof -
  have "(0::rat) < power_int 2 (- 1022)" by simp
  with assms have x: "0 < x" by linarith
  define u :: rat where "u = power_int 2 (exponent2 x - 52)"
  have u: "0 < u" unfolding u_def by simp
  define m where "m = round_half_even (x / u)"
  have fl: "fl x = of_int m * u"
    unfolding m_def u_def using assms by (rule fl_pos_eq)
  have "\<bar>of_int m - x / u\<bar> \<le> 1 / 2"
    unfolding m_def by (rule round_half_even_error)
  then have "\<bar>of_int m - x / u\<bar> * u \<le> 1 / 2 * u"
    using u by (intro mult_right_mono) simp_all
  moreover have "\<bar>of_int m - x / u\<bar> * u = \<bar>of_int m * u - x\<bar>"
  proof -
    have "\<bar>of_int m - x / u\<bar> * u = \<bar>of_int m - x / u\<bar> * \<bar>u\<bar>" using u by simp
    also have "\<dots> = \<bar>(of_int m - x / u) * u\<bar>" by (simp add: abs_mult)
    also have "(of_int m - x / u) * u = of_int m * u - x" using u by (simp add: algebra_simps)
    finally show ?thesis .
  qed
  ultimately have e: "\<bar>fl x - x\<bar> \<le> u / 2" unfolding fl by simp
  have "u * 2 ^ 52 = power_int 2 (exponent2 x)"
  proof -
    have "u * 2 ^ 52 = power_int 2 (exponent2 x - 52) * power_int 2 52"
      unfolding u_def by simp
    also have "\<dots> = power_int 2 (exponent2 x - 52 + 52)"
      by (rule power_int_add [symmetric]) simp
    finally show ?thesis by simp
  qed
  with exponent2_bounds(1)[OF x] have "u * 2 ^ 52 \<le> x" by simp
  then have "u / 2 \<le> x / 2 ^ 53" by (simp add: field_simps)
  with e show ?thesis by linarith
qed

lemma fl_of_int_pos:
  assumes "0 < n" "n \<le> 2 ^ 53"
  shows "fl (of_int n) = of_int n"
proof -
  define x :: rat where "x = of_int n"
  have x1: "1 \<le> x" using assms unfolding x_def by simp
  then have x: "0 < x" by simp
  have "power_int (2::rat) (- 1022) \<le> 1"
    using power_int_increasing [of "- 1022" 0 "2::rat"] by simp
  with x1 have lo: "power_int 2 (- 1022) \<le> x" by linarith
  define e where "e = exponent2 x"
  have e0: "0 \<le> e" unfolding e_def using x1 by (intro exponent2_ge) simp
  have flx: "fl x = of_int (round_half_even (x / power_int 2 (e - 52))) * power_int 2 (e - 52)"
    unfolding e_def using lo by (rule fl_pos_eq)
  show ?thesis
  proof (cases "e \<le> 52")
    case True
    then have u: "power_int (2::rat) (e - 52) = 1 / 2 ^ nat (52 - e)"
      by (simp add: power_int_def inverse_eq_divide power_divide)
    have "x / power_int 2 (e - 52) = of_int (n * 2 ^ nat (52 - e))"
      unfolding u x_def by simp
    then have "round_half_even (x / power_int 2 (e - 52)) = n * 2 ^ nat (52 - e)"
      by (simp only: round_half_even_of_int)
    then show ?thesis unfolding flx [unfolded x_def [symmetric], folded x_def] x_def [symmetric] u
      by (simp add: x_def)
  next
    case False
    have "x \<le> 2 ^ 53" using assms unfolding x_def
      by (metis of_int_le_iff of_int_numeral of_int_power)
    moreover have "power_int 2 e \<le> x" unfolding e_def using x by (rule exponent2_bounds)
    ultimately have "power_int (2::rat) e \<le> power_int 2 53" by simp
    then have "e \<le> 53" by (rule pow2_le_imp)
    with False have e: "e = 53" by simp
    have "power_int (2::rat) 53 \<le> x" using \<open>power_int 2 e \<le> x\<close> unfolding e .
    with \<open>x \<le> 2 ^ 53\<close> have "x = 2 ^ 53" by simp
    then show ?thesis unfolding x_def [symmetric] flx e
      by (simp add: round_half_even_def)
  qed
qed

lemma round_half_even_mono:
  assumes "a \<le> b"
  shows "round_half_even a \<le> round_half_even b"
proof (rule ccontr)
  assume "\<not> round_half_even a \<le> round_half_even b"
  then have "round_half_even b + 1 \<le> round_half_even a" by simp
  then have "(of_int (round_half_even b + 1) :: rat) \<le> of_int (round_half_even a)"
    by (simp only: of_int_le_iff)
  then have c: "(of_int (round_half_even b) :: rat) + 1 \<le> of_int (round_half_even a)" by simp
  from round_half_even_error [of a] round_half_even_error [of b] assms c
  have "a = b" by linarith
  with \<open>\<not> round_half_even a \<le> round_half_even b\<close> show False by simp
qed

lemma pow2_quot: "power_int (2::rat) m / power_int 2 n = power_int 2 (m - n)"
  by (rule power_int_diff [symmetric]) simp

lemma fl_pos_form:
  assumes "0 < x"
  shows "fl x = of_int (round_half_even (x / power_int 2 (max (exponent2 x) (- 1022) - 52)))
           * power_int 2 (max (exponent2 x) (- 1022) - 52)"
  using assms unfolding fl_def Let_def by simp

lemma fl_le_pow:
  assumes "0 < x"
  shows "fl x \<le> power_int 2 (max (exponent2 x) (- 1022) + 1)"
proof -
  define E where "E = max (exponent2 x) (- 1022)"
  define U :: rat where "U = power_int 2 (E - 52)"
  have U: "0 < U" unfolding U_def by simp
  have "x < power_int 2 (exponent2 x + 1)" using assms by (rule exponent2_bounds)
  also have "\<dots> \<le> power_int 2 (E + 1)"
    unfolding E_def by (rule power_int_increasing) simp_all
  finally have "x / U < power_int 2 (E + 1) / U"
    using U by (simp add: divide_strict_right_mono)
  also have "power_int 2 (E + 1) / U = power_int 2 53"
    unfolding U_def pow2_quot by simp
  finally have "x / U \<le> of_int (2 ^ 53)" by simp
  then have "round_half_even (x / U) \<le> round_half_even (of_int (2 ^ 53))"
    by (rule round_half_even_mono)
  then have "round_half_even (x / U) \<le> 2 ^ 53"
    by (simp only: round_half_even_of_int)
  then have "(of_int (round_half_even (x / U)) :: rat) \<le> of_int (2 ^ 53)"
    by (simp only: of_int_le_iff)
  then have "of_int (round_half_even (x / U)) * U \<le> of_int (2 ^ 53) * U"
    using U by (intro mult_right_mono) simp_all
  also have "of_int (2 ^ 53) * U = power_int 2 53 * power_int 2 (E - 52)"
    unfolding U_def by simp
  also have "\<dots> = power_int 2 (53 + (E - 52))"
    by (rule power_int_add [symmetric]) simp
  also have "53 + (E - 52) = E + 1" by simp
  finally show ?thesis
    unfolding fl_pos_form [OF assms] E_def [symmetric] U_def [symmetric] .
qed

lemma fl_ge_pow:
  assumes "power_int 2 (- 1022) \<le> x"
  shows "power_int 2 (exponent2 x) \<le> fl x"
proof -
  have "(0::rat) < power_int 2 (- 1022)" by simp
  with assms have x: "0 < x" by linarith
  define e where "e = exponent2 x"
  define U :: rat where "U = power_int 2 (e - 52)"
  have U: "0 < U" unfolding U_def by simp
  have "power_int 2 e \<le> x" unfolding e_def using x by (rule exponent2_bounds)
  then have "power_int 2 e / U \<le> x / U" using U by (simp add: divide_right_mono)
  moreover have "power_int 2 e / U = power_int 2 52" unfolding U_def pow2_quot by simp
  ultimately have "of_int (2 ^ 52) \<le> x / U" by simp
  then have "round_half_even (of_int (2 ^ 52)) \<le> round_half_even (x / U)"
    by (rule round_half_even_mono)
  then have "2 ^ 52 \<le> round_half_even (x / U)" by (simp only: round_half_even_of_int)
  then have "(of_int (2 ^ 52) :: rat) \<le> of_int (round_half_even (x / U))"
    by (simp only: of_int_le_iff)
  then have "of_int (2 ^ 52) * U \<le> of_int (round_half_even (x / U)) * U"
    using U by (intro mult_right_mono) simp_all
  moreover have "of_int (2 ^ 52) * U = power_int 2 e"
  proof -
    have "of_int (2 ^ 52) * U = power_int 2 52 * power_int 2 (e - 52)" unfolding U_def by simp
    also have "\<dots> = power_int 2 (52 + (e - 52))" by (rule power_int_add [symmetric]) simp
    finally show ?thesis by simp
  qed
  ultimately show ?thesis
    unfolding fl_pos_eq [OF assms] e_def [symmetric] U_def [symmetric] by simp
qed

lemma fl_nonneg: "0 \<le> x \<Longrightarrow> 0 \<le> fl x"
proof (cases "x = 0")
  case True
  then show ?thesis by (simp add: fl_def)
next
  case False
  assume "0 \<le> x"
  with False have x: "0 < x" by simp
  have "round_half_even 0 \<le> round_half_even (x / power_int 2 (max (exponent2 x) (- 1022) - 52))"
    using x by (intro round_half_even_mono) simp
  moreover have "round_half_even 0 = 0" using round_half_even_of_int [of 0] by simp
  ultimately show ?thesis unfolding fl_pos_form [OF x] by simp
qed

lemma fl_mono:
  assumes "0 \<le> x" "x \<le> y"
  shows "fl x \<le> fl y"
proof (cases "x = 0")
  case True
  with assms have "0 \<le> fl y" by (intro fl_nonneg) simp
  with True show ?thesis by (simp add: fl_def)
next
  case False
  with assms have x: "0 < x" and y: "0 < y" by simp_all
  define Ex where "Ex = max (exponent2 x) (- 1022)"
  define Ey where "Ey = max (exponent2 y) (- 1022)"
  have "power_int 2 (exponent2 x) \<le> x" using x by (rule exponent2_bounds)
  with assms(2) have "power_int 2 (exponent2 x) \<le> y" by linarith
  then have "exponent2 x \<le> exponent2 y" by (rule exponent2_ge)
  then have le: "Ex \<le> Ey" unfolding Ex_def Ey_def by simp
  show ?thesis
  proof (cases "Ex = Ey")
    case True
    define U :: rat where "U = power_int 2 (Ex - 52)"
    have U: "0 < U" unfolding U_def by simp
    have "x / U \<le> y / U" using assms(2) U by (simp add: divide_right_mono)
    then have "round_half_even (x / U) \<le> round_half_even (y / U)"
      by (rule round_half_even_mono)
    then have "(of_int (round_half_even (x / U)) :: rat) \<le> of_int (round_half_even (y / U))"
      by (simp only: of_int_le_iff)
    then have "of_int (round_half_even (x / U)) * U \<le> of_int (round_half_even (y / U)) * U"
      using U by (intro mult_right_mono) simp_all
    then show ?thesis
      unfolding fl_pos_form [OF x] fl_pos_form [OF y] Ex_def [symmetric] Ey_def [symmetric]
        True [symmetric] U_def [symmetric] .
  next
    case False
    with le have lt: "Ex + 1 \<le> Ey" by simp
    have "- 1022 \<le> Ex" unfolding Ex_def by simp
    with lt have "- 1022 < Ey" by simp
    then have ey: "Ey = exponent2 y" "- 1022 \<le> exponent2 y" unfolding Ey_def by simp_all
    have "power_int (2::rat) (- 1022) \<le> power_int 2 (exponent2 y)"
      using ey(2) by (intro power_int_increasing) simp_all
    also have "\<dots> \<le> y" using y by (rule exponent2_bounds)
    finally have "power_int 2 (exponent2 y) \<le> fl y" by (rule fl_ge_pow)
    moreover have "fl x \<le> power_int 2 (Ex + 1)" unfolding Ex_def using x by (rule fl_le_pow)
    moreover have "power_int (2::rat) (Ex + 1) \<le> power_int 2 Ey"
      using lt by (intro power_int_increasing) simp_all
    ultimately show ?thesis unfolding ey(1) by linarith
  qed
qed

lemma js_div_mono:
  assumes "0 \<le> a" "a \<le> b" "0 < c"
  shows "js_div a c \<le> js_div b c"
  unfolding js_div_def using assms by (intro fl_mono) (simp_all add: divide_right_mono)

section \<open>The quality search\<close>

lemma lit_0_8_value: "lit_0_8 = 3602879701896397 / 4503599627370496"
  unfolding lit_0_8_def by code_simp

lemma lit_0_1_value: "lit_0_1 = 3602879701896397 / 36028797018963968"
  unfolding lit_0_1_def by code_simp

lemma ladder_steps: "ladder_from (hd quality_ladder) (tl quality_ladder)"
  by code_simp

lemma hd_ladder: "hd quality_ladder = lit_0_8"
  unfolding lit_0_8_value quality_ladder_def by simp

lemma quality_encode_at [simp]: "quality (encode_at pf cv q tried) = q"
  by (simp add: encode_at_def Let_def)

lemma encodes_encode_at [simp]: "encodes (encode_at pf cv q tried) = tried @ [q]"
  by (simp add: encode_at_def Let_def)

lemma blob_encode_at [simp]:
  "blob (encode_at pf cv q tried) = body (toDataURL pf cv ''image/webp'' q)"
  by (simp add: encode_at_def Let_def fetch_blob_def)

lemma webpUrl_encode_at [simp]:
  "webpUrl (encode_at pf cv q tried) = toDataURL pf cv ''image/webp'' q"
  by (simp add: encode_at_def Let_def)

lemma quality_loop_descend:
  "ladder_from (quality s) qs \<Longrightarrow> quality_loop pf cv fsize s = Some (descend pf cv fsize qs s)"
proof (induction qs arbitrary: s)
  case Nil
  then show ?case by (subst quality_loop.simps) simp
next
  case (Cons q qs)
  from Cons.prems [unfolded ladder_from.simps]
  have gt: "lit_0_1 < quality s" and q: "q = js_sub (quality s) lit_0_1"
    and rest: "ladder_from q qs" by blast+
  show ?case
  proof (cases "fsize < length (blob s)")
    case True
    have "quality_loop pf cv fsize s = quality_loop pf cv fsize (encode_at pf cv q (encodes s))"
      using True gt q by (subst quality_loop.simps) simp
    also have "\<dots> = Some (descend pf cv fsize qs (encode_at pf cv q (encodes s)))"
      using rest by (intro Cons.IH) simp
    finally show ?thesis using True by simp
  next
    case False
    then show ?thesis by (subst quality_loop.simps) simp
  qed
qed

lemma quality_search_descend:
  "quality_search pf cv fsize =
     Some (descend pf cv fsize (tl quality_ladder) (encode_at pf cv (hd quality_ladder) []))"
  unfolding quality_search_def hd_ladder [symmetric]
  using ladder_steps by (intro quality_loop_descend) simp

lemma encoded_encode_at [simp]: "encoded pf cv (encode_at pf cv q tried)"
  by (simp add: encoded_def)

lemma encoded_descend: "encoded pf cv s \<Longrightarrow> encoded pf cv (descend pf cv fsize qs s)"
  by (induction qs arbitrary: s) simp_all

lemma descend_encodes:
  "\<exists>n \<le> length qs. encodes (descend pf cv fsize qs s) = encodes s @ take n qs"
proof (induction qs arbitrary: s)
  case Nil
  then show ?case by simp
next
  case (Cons q qs)
  show ?case
  proof (cases "fsize < length (blob s)")
    case True
    from Cons.IH [of "encode_at pf cv q (encodes s)"] obtain n where
      "n \<le> length qs" "encodes (descend pf cv fsize qs (encode_at pf cv q (encodes s))) = (encodes s @ [q]) @ take n qs"
      by auto
    then have "Suc n \<le> length (q # qs) \<and> encodes (descend pf cv fsize (q # qs) s) = encodes s @ take (Suc n) (q # qs)"
      using True by simp
    then show ?thesis by blast
  next
    case False
    then have "0 \<le> length (q # qs) \<and> encodes (descend pf cv fsize (q # qs) s) = encodes s @ take 0 (q # qs)"
      by simp
    then show ?thesis by blast
  qed
qed

lemma descend_rejected:
  assumes "encoded pf cv s" "ladder_from (quality s) qs"
    "\<forall>q \<in> set (butlast (encodes s)). rejected pf cv fsize q"
  shows "\<forall>q \<in> set (butlast (encodes (descend pf cv fsize qs s))). rejected pf cv fsize q"
  using assms
proof (induction qs arbitrary: s)
  case Nil
  then show ?case by simp
next
  case (Cons q qs)
  show ?case
  proof (cases "fsize < length (blob s)")
    case True
    let ?s = "encode_at pf cv q (encodes s)"
    from Cons.prems(1) have es: "encodes s = butlast (encodes s) @ [quality s]"
      "blob s = body (toDataURL pf cv ''image/webp'' (quality s))"
      by (simp_all add: encoded_def)
    from Cons.prems(2) [unfolded ladder_from.simps]
    have gt: "lit_0_1 < quality s" and rest: "ladder_from q qs" by blast+
    have "rejected pf cv fsize (quality s)"
      unfolding rejected_def using True gt es(2) by simp
    with Cons.prems(3) es(1) have "\<forall>x \<in> set (encodes s). rejected pf cv fsize x"
      by (metis butlast_snoc in_set_butlastD rotate1.simps(2) set_ConsD set_rotate1)
    then have "\<forall>x \<in> set (butlast (encodes ?s)). rejected pf cv fsize x" by simp
    with Cons.IH [of ?s] rest
    have "\<forall>x \<in> set (butlast (encodes (descend pf cv fsize qs ?s))). rejected pf cv fsize x"
      by simp
    then show ?thesis using True by simp
  next
    case False
    then show ?thesis using Cons.prems(3) by simp
  qed
qed

lemma descend_stops:
  "ladder_from (quality s) qs \<Longrightarrow>
   length (blob (descend pf cv fsize qs s)) \<le> fsize \<or> quality (descend pf cv fsize qs s) \<le> lit_0_1"
proof (induction qs arbitrary: s)
  case Nil
  then show ?case by simp
next
  case (Cons q qs)
  from Cons.prems [unfolded ladder_from.simps] have rest: "ladder_from q qs" by blast
  show ?case
  proof (cases "fsize < length (blob s)")
    case True
    from Cons.IH [of "encode_at pf cv q (encodes s)"] rest True show ?thesis by simp
  next
    case False
    then show ?thesis by simp
  qed
qed

lemma quality_ladder_split: "quality_ladder = hd quality_ladder # tl quality_ladder"
  by (simp add: quality_ladder_def)

lemma length_tl_ladder: "length (tl quality_ladder) = 8"
  by (simp add: quality_ladder_def)

lemma quality_search_result:
  "\<exists>s n. quality_search pf cv fsize = Some s \<and> encoded pf cv s \<and>
     1 \<le> n \<and> n \<le> 9 \<and> encodes s = take n quality_ladder \<and>
     (\<forall>q \<in> set (butlast (encodes s)). rejected pf cv fsize q) \<and>
     (length (blob s) \<le> fsize \<or> quality s \<le> lit_0_1)"
proof -
  let ?init = "encode_at pf cv (hd quality_ladder) []"
  let ?s = "descend pf cv fsize (tl quality_ladder) ?init"
  have run: "quality_search pf cv fsize = Some ?s" by (rule quality_search_descend)
  have enc: "encoded pf cv ?s" by (intro encoded_descend) simp
  have lad: "ladder_from (quality ?init) (tl quality_ladder)"
    using ladder_steps by simp
  from descend_encodes [of "tl quality_ladder" pf cv fsize ?init]
  obtain n where n0: "n \<le> length (tl quality_ladder)"
    and n2: "encodes ?s = encodes ?init @ take n (tl quality_ladder)"
    by blast
  have n: "n \<le> 8" "encodes ?s = [hd quality_ladder] @ take n (tl quality_ladder)"
    using n0 n2 unfolding length_tl_ladder by simp_all
  have "take (Suc n) quality_ladder = hd quality_ladder # take n (tl quality_ladder)"
    by (subst quality_ladder_split) simp
  with n(2) have tk: "encodes ?s = take (Suc n) quality_ladder" by simp
  have rej: "\<forall>q \<in> set (butlast (encodes ?s)). rejected pf cv fsize q"
    using lad by (intro descend_rejected) simp_all
  have stop: "length (blob ?s) \<le> fsize \<or> quality ?s \<le> lit_0_1"
    using lad by (rule descend_stops)
  have "1 \<le> Suc n" "Suc n \<le> 9" using n(1) by simp_all
  with run enc tk rej stop show ?thesis by blast
qed

lemma steps_ladder: "take 8 quality_ladder = quality_steps"
  by (simp add: quality_ladder_def quality_steps_def)

lemma below_8_cases:
  assumes "k < 8"
  obtains "k = 0" | "k = 1" | "k = 2" | "k = 3" | "k = 4" | "k = 5" | "k = 6" | "k = (7::nat)"
proof -
  from assms have "k = 0 \<or> k = 1 \<or> k = 2 \<or> k = 3 \<or> k = 4 \<or> k = 5 \<or> k = 6 \<or> k = 7"
    by presburger
  with that show thesis by blast
qed

lemma steps_close: "k < 8 \<Longrightarrow> \<bar>quality_steps ! k - (8 - of_nat k) / 10\<bar> \<le> 1 / 2 ^ 52"
  by (erule below_8_cases) (simp_all add: quality_steps_def)

lemma steps_above: "k < 7 \<Longrightarrow> lit_0_1 < quality_steps ! k"
proof -
  assume "k < 7"
  then have "k < 8" "k \<noteq> 7" by simp_all
  then show ?thesis
    by (elim below_8_cases) (simp_all add: quality_steps_def lit_0_1_value)
qed

lemma steps_sub: "k < 7 \<Longrightarrow> quality_steps ! Suc k = js_sub (quality_steps ! k) lit_0_1"
proof -
  assume "k < 7"
  then have k: "k < 8" "k \<noteq> 7" by simp_all
  from ladder_steps have
    "js_sub (3602879701896397 / 4503599627370496) lit_0_1 = 6305039478318695 / 9007199254740992"
    "js_sub (6305039478318695 / 9007199254740992) lit_0_1 = 1351079888211149 / 2251799813685248"
    "js_sub (1351079888211149 / 2251799813685248) lit_0_1 = 4503599627370497 / 9007199254740992"
    "js_sub (4503599627370497 / 9007199254740992) lit_0_1 = 1801439850948199 / 4503599627370496"
    "js_sub (1801439850948199 / 4503599627370496) lit_0_1 = 2702159776422299 / 9007199254740992"
    "js_sub (2702159776422299 / 9007199254740992) lit_0_1 = 7205759403792799 / 36028797018963968"
    "js_sub (7205759403792799 / 36028797018963968) lit_0_1 = 1801439850948201 / 18014398509481984"
    unfolding quality_ladder_def by simp_all
  with k show ?thesis
    by (elim below_8_cases) (simp_all add: quality_steps_def)
qed

lemma ladder_nth_steps: "k < 8 \<Longrightarrow> quality_ladder ! k = quality_steps ! k"
  using nth_take [of k 8 quality_ladder] by (simp add: steps_ladder)

lemma length_ladder: "length quality_ladder = 9"
  by (simp add: quality_ladder_def)

lemma search_by_design:
  "\<exists>s. quality_search pf cv fsize = Some s \<and> encodes s \<noteq> [] \<and>
      take 8 (encodes s) = take (min 8 (length (encodes s))) quality_steps \<and>
      quality s = last (encodes s) \<and>
      blob s = body (toDataURL pf cv ''image/webp'' (quality s)) \<and>
      (\<forall>q \<in> set (butlast (encodes s)). fsize < length (body (toDataURL pf cv ''image/webp'' q))) \<and>
      (length (encodes s) < 8 \<longrightarrow> length (blob s) \<le> fsize)"
proof -
  from quality_search_result [of pf cv fsize] obtain s n where
    s: "quality_search pf cv fsize = Some s" and e: "encoded pf cv s"
    and n: "1 \<le> n" "n \<le> 9" and t: "encodes s = take n quality_ladder"
    and r: "\<forall>q \<in> set (butlast (encodes s)). rejected pf cv fsize q"
    and stop: "length (blob s) \<le> fsize \<or> quality s \<le> lit_0_1"
    by blast
  have len: "length (encodes s) = n" unfolding t using n(2) by (simp add: length_ladder)
  from e have ne: "encodes s \<noteq> []" and ql: "quality s = last (encodes s)"
    and b: "blob s = body (toDataURL pf cv ''image/webp'' (quality s))"
    by (simp_all add: encoded_def)
  have "take 8 (encodes s) = take (min 8 n) quality_ladder" unfolding t by (simp add: min.commute)
  also have "\<dots> = take (min 8 n) (take 8 quality_ladder)" by simp
  finally have t8: "take 8 (encodes s) = take (min 8 (length (encodes s))) quality_steps"
    unfolding steps_ladder len .
  have big: "\<forall>q \<in> set (butlast (encodes s)). fsize < length (body (toDataURL pf cv ''image/webp'' q))"
    using r by (simp add: rejected_def)
  have fit: "length (blob s) \<le> fsize" if "length (encodes s) < 8"
  proof -
    from that len n have k: "n - 1 < 7" "n - 1 < length quality_ladder" "0 < n"
      by (simp_all add: length_ladder)
    have tn: "length (take n quality_ladder) = n" using n(2) by (simp add: length_ladder)
    with k(3) have "take n quality_ladder \<noteq> []" by auto
    from last_conv_nth [OF this]
    have "last (take n quality_ladder) = take n quality_ladder ! (n - 1)"
      unfolding tn .
    also have "\<dots> = quality_ladder ! (n - 1)" using k(3) by simp
    finally have "last (encodes s) = quality_ladder ! (n - 1)" unfolding t .
    also have "\<dots> = quality_steps ! (n - 1)" using k(1) by (intro ladder_nth_steps) simp
    finally have "lit_0_1 < quality s" unfolding ql using steps_above [OF k(1)] by simp
    with stop show ?thesis by simp
  qed
  from s ne t8 ql b big fit show ?thesis by blast
qed

lemma descend_stop_at:
  assumes "k < length (q0 # qs)"
    and "\<forall>j < k. fsize < length (body (toDataURL pf cv ''image/webp'' ((q0 # qs) ! j)))"
    and "length (body (toDataURL pf cv ''image/webp'' ((q0 # qs) ! k))) \<le> fsize"
  shows "descend pf cv fsize qs (encode_at pf cv q0 tried) =
           encode_at pf cv ((q0 # qs) ! k) (tried @ take k (q0 # qs))"
  using assms
proof (induction qs arbitrary: q0 tried k)
  case Nil
  then show ?case by simp
next
  case (Cons q1 qs)
  show ?case
  proof (cases k)
    case 0
    with Cons.prems(3) show ?thesis by simp
  next
    case (Suc k')
    with Cons.prems(2) have big: "fsize < length (body (toDataURL pf cv ''image/webp'' q0))"
      by auto
    have a: "k' < length (q1 # qs)" using Cons.prems(1) Suc by simp
    have b: "\<forall>j < k'. fsize < length (body (toDataURL pf cv ''image/webp'' ((q1 # qs) ! j)))"
    proof (intro allI impI)
      fix j assume "j < k'"
      then have "Suc j < k" using Suc by simp
      with Cons.prems(2) have "fsize < length (body (toDataURL pf cv ''image/webp'' ((q0 # q1 # qs) ! Suc j)))"
        by blast
      then show "fsize < length (body (toDataURL pf cv ''image/webp'' ((q1 # qs) ! j)))" by simp
    qed
    have c: "length (body (toDataURL pf cv ''image/webp'' ((q1 # qs) ! k'))) \<le> fsize"
      using Cons.prems(3) Suc by simp
    from Cons.IH [OF a b c, of "tried @ [q0]"] big Suc show ?thesis by simp
  qed
qed

lemma quality_search_stop_at:
  assumes "k < length quality_ladder"
    and "\<forall>j < k. fsize < length (body (toDataURL pf cv ''image/webp'' (quality_ladder ! j)))"
    and "length (body (toDataURL pf cv ''image/webp'' (quality_ladder ! k))) \<le> fsize"
  shows "quality_search pf cv fsize =
           Some (encode_at pf cv (quality_ladder ! k) (take k quality_ladder))"
proof -
  have l: "hd quality_ladder # tl quality_ladder = quality_ladder"
    using quality_ladder_split by simp
  from descend_stop_at [of k "hd quality_ladder" "tl quality_ladder" fsize pf cv "[]"] assms
  have "descend pf cv fsize (tl quality_ladder) (encode_at pf cv (hd quality_ladder) []) =
      encode_at pf cv (quality_ladder ! k) (take k quality_ladder)"
    unfolding l by simp
  then show ?thesis by (simp add: quality_search_descend)
qed

text \<open>
  C1, as amended. The search always ends and makes at least one encode. Its encodes, up to the
  eighth, are made in order at the qualities of \<open>quality_steps\<close>: 0.8 first, then each time
  the quality before minus 0.1 in double arithmetic, which is within \<open>2^-52\<close> of 0.7, 0.6,
  0.5, 0.4, 0.3, 0.2 and 0.1. Every encode but the last gave more bytes than the original,
  and a search of fewer than eight encodes ends on an encode that is no larger than the
  original. (Nothing is said of what follows an eighth encode that is still too large.)
\<close>

theorem quality_search_by_design:
  "(\<forall>k < 8. \<bar>quality_steps ! k - (8 - of_nat k) / 10\<bar> \<le> 1 / 2 ^ 52) \<and>
   hd quality_steps = lit_0_8 \<and>
   (\<forall>k < 7. quality_steps ! Suc k = js_sub (quality_steps ! k) lit_0_1) \<and>
   (\<exists>s. quality_search pf cv fsize = Some s \<and> encodes s \<noteq> [] \<and>
      take 8 (encodes s) = take (min 8 (length (encodes s))) quality_steps \<and>
      quality s = last (encodes s) \<and>
      blob s = body (toDataURL pf cv ''image/webp'' (quality s)) \<and>
      (\<forall>q \<in> set (butlast (encodes s)). fsize < length (body (toDataURL pf cv ''image/webp'' q))) \<and>
      (length (encodes s) < 8 \<longrightarrow> length (blob s) \<le> fsize))"
proof -
  have "hd quality_steps = lit_0_8"
    by (simp add: quality_steps_def lit_0_8_value)
  with steps_close steps_sub search_by_design [of pf cv fsize] show ?thesis by blast
qed

lemma two_bytes_search:
  "quality_search two_bytes cv (Suc 0) =
     Some \<lparr>quality = 5 / 36028797018963968, webpUrl = DataURL ''image/webp'' [82, 73],
           blob = [82, 73], encodes = quality_ladder\<rparr>"
  by (simp add: quality_search_descend quality_ladder_def encode_at_def two_bytes_def fetch_blob_def)

lemma two_bytes_search_stop:
  "quality_search two_bytes cv 2 =
     Some \<lparr>quality = lit_0_8, webpUrl = DataURL ''image/webp'' [82, 73],
           blob = [82, 73], encodes = [lit_0_8]\<rparr>"
  by (simp add: quality_search_descend quality_ladder_def encode_at_def two_bytes_def fetch_blob_def
      lit_0_8_value)

lemma shrinking_search:
  "quality_search shrinking cv 2 =
     Some \<lparr>quality = 6305039478318695 / 9007199254740992,
           webpUrl = DataURL ''image/webp'' [82], blob = [82],
           encodes = [3602879701896397 / 4503599627370496, 6305039478318695 / 9007199254740992]\<rparr>"
  by (simp add: quality_search_descend quality_ladder_def encode_at_def shrinking_def fetch_blob_def)


text \<open>
  An encoder that gives three bytes at 0.8 and one byte below, against an original of two
  bytes: the search stops after its second encode.
\<close>

theorem quality_search_by_design_witness:
  "\<exists>s. quality_search shrinking (render one_pixel) 2 = Some s \<and>
     encodes s = take 2 quality_steps \<and> length (encodes s) < 8 \<and> length (blob s) \<le> 2 \<and>
     (\<forall>q \<in> set (butlast (encodes s)).
        2 < length (body (toDataURL shrinking (render one_pixel) ''image/webp'' q)))"
proof -
  from quality_search_by_design [of shrinking "render one_pixel" 2] obtain s where
    s: "quality_search shrinking (render one_pixel) 2 = Some s"
    and big: "\<forall>q \<in> set (butlast (encodes s)).
        2 < length (body (toDataURL shrinking (render one_pixel) ''image/webp'' q))"
    and fit: "length (encodes s) < 8 \<longrightarrow> length (blob s) \<le> 2"
    by blast
  from s have e: "encodes s = take 2 quality_steps"
    by (auto simp: shrinking_search quality_steps_def)
  then have l: "length (encodes s) < 8" by (simp add: quality_steps_def)
  with fit have "length (blob s) \<le> 2" by blast
  with s e l big show ?thesis by blast
qed

text \<open>
  C1 as the specification states it (at most 7 encodes, none at a quality of 0.1 or lower)
  fails for an encoder that always gives two bytes, against an original of one byte: there
  are 9 encodes, and the last one is at a quality below 0.1.
\<close>

theorem seven_encodes_counterexample:
  "map_option (length \<circ> encodes) (quality_search two_bytes (render one_pixel) 1) = Some 9 \<and>
   map_option (last \<circ> encodes) (quality_search two_bytes (render one_pixel) 1)
     = Some (5 / 36028797018963968) \<and>
   (5 / 36028797018963968 :: rat) \<le> 1 / 10"
  by (simp add: two_bytes_search quality_ladder_def)

section \<open>The result of processImage\<close>

lemma processImage_decoded:
  assumes "decode pf (readAsDataURL file) = Some img"
  shows "\<exists>s. quality_search pf (render img) (file_size file) = Some s \<and>
           encoded pf (render img) s \<and>
           (\<forall>q \<in> set (butlast (encodes s)). rejected pf (render img) (file_size file) q) \<and>
           processImage pf file =
             Some (if file_size file \<le> length (blob s)
                   then \<lparr>name = file_name file, url = readAsDataURL file,
                         size_p = file_size file, originalSize = file_size file\<rparr>
                   else \<lparr>name = strip_ext (file_name file) @ ''-optimized.webp'',
                         url = webpUrl s,
                         size_p = length (blob s), originalSize = file_size file\<rparr>)"
proof -
  from quality_search_result [of pf "render img" "file_size file"] obtain s where
    s: "quality_search pf (render img) (file_size file) = Some s"
    and e: "encoded pf (render img) s"
    and r: "\<forall>q \<in> set (butlast (encodes s)). rejected pf (render img) (file_size file) q"
    by blast
  from assms s have "processImage pf file =
             Some (if file_size file \<le> length (blob s)
                   then \<lparr>name = file_name file, url = readAsDataURL file,
                         size_p = file_size file, originalSize = file_size file\<rparr>
                   else \<lparr>name = strip_ext (file_name file) @ ''-optimized.webp'',
                         url = webpUrl s,
                         size_p = length (blob s), originalSize = file_size file\<rparr>)"
    by (simp add: processImage_def Let_def)
  with s e r show ?thesis by blast
qed

lemma processImage_undecoded:
  "decode pf (readAsDataURL file) = None \<Longrightarrow> processImage pf file = None"
  by (simp add: processImage_def Let_def)

lemma body_readAsDataURL: "body (readAsDataURL file) = file_bytes file"
  by (simp add: readAsDataURL_def)

text \<open>
  C4. When the image decodes, the search ends, and if its last encode has at least as many
  bytes as the original then the result is the original: its name, the data URL of its own
  bytes, and its size as both the final and the original size.
\<close>

theorem retain_original:
  assumes "decode pf (readAsDataURL file) = Some img"
  shows "\<exists>s. quality_search pf (render img) (file_size file) = Some s \<and>
           (file_size file \<le> length (blob s) \<longrightarrow>
              processImage pf file =
                Some \<lparr>name = file_name file, url = readAsDataURL file,
                      size_p = file_size file, originalSize = file_size file\<rparr> \<and>
              fetch_blob (readAsDataURL file) = file_bytes file)"
proof -
  from processImage_decoded [OF assms] obtain s where
    "quality_search pf (render img) (file_size file) = Some s"
    "processImage pf file =
             Some (if file_size file \<le> length (blob s)
                   then \<lparr>name = file_name file, url = readAsDataURL file,
                         size_p = file_size file, originalSize = file_size file\<rparr>
                   else \<lparr>name = strip_ext (file_name file) @ ''-optimized.webp'',
                         url = webpUrl s,
                         size_p = length (blob s), originalSize = file_size file\<rparr>)"
    by blast
  then have "quality_search pf (render img) (file_size file) = Some s \<and>
           (file_size file \<le> length (blob s) \<longrightarrow>
              processImage pf file =
                Some \<lparr>name = file_name file, url = readAsDataURL file,
                      size_p = file_size file, originalSize = file_size file\<rparr> \<and>
              fetch_blob (readAsDataURL file) = file_bytes file)"
    by (simp add: fetch_blob_def body_readAsDataURL)
  then show ?thesis ..
qed

lemma decode_two_bytes: "decode two_bytes (readAsDataURL (photo (Suc n))) = Some one_pixel"
  by (simp add: two_bytes_def readAsDataURL_def photo_def)

lemma file_size_photo [simp]: "file_size (photo n) = n"
  by (simp add: file_size_def photo_def)

text \<open>An original of two bytes against an encoder that always gives two bytes.\<close>

theorem retain_original_witness:
  "decode two_bytes (readAsDataURL (photo 2)) = Some one_pixel \<and>
   map_option (length \<circ> blob) (quality_search two_bytes (render one_pixel) (file_size (photo 2))) = Some 2 \<and>
   file_size (photo 2) = 2 \<and>
   processImage two_bytes (photo 2) =
     Some \<lparr>name = ''photo.png'', url = DataURL ''image/png'' [7, 7], size_p = 2, originalSize = 2\<rparr>"
proof -
  have d: "decode two_bytes (readAsDataURL (photo 2)) = Some one_pixel"
    using decode_two_bytes [of 1] by (simp add: numeral_2_eq_2)
  from retain_original [OF d] obtain s where
    s: "quality_search two_bytes (render one_pixel) (file_size (photo 2)) = Some s"
    and imp: "file_size (photo 2) \<le> length (blob s) \<longrightarrow>
              processImage two_bytes (photo 2) =
                Some \<lparr>name = file_name (photo 2), url = readAsDataURL (photo 2),
                      size_p = file_size (photo 2), originalSize = file_size (photo 2)\<rparr> \<and>
              fetch_blob (readAsDataURL (photo 2)) = file_bytes (photo 2)"
    by blast
  from s have b: "blob s = [82, 73]"
    by (auto simp: two_bytes_search_stop)
  then have "file_size (photo 2) \<le> length (blob s)" by simp
  with imp have "processImage two_bytes (photo 2) =
                Some \<lparr>name = file_name (photo 2), url = readAsDataURL (photo 2),
                      size_p = file_size (photo 2), originalSize = file_size (photo 2)\<rparr>"
    by blast
  then have "processImage two_bytes (photo 2) =
     Some \<lparr>name = ''photo.png'', url = DataURL ''image/png'' [7, 7], size_p = 2, originalSize = 2\<rparr>"
    by (simp add: photo_def readAsDataURL_def numeral_2_eq_2 file_size_def)
  with d s b show ?thesis by simp
qed

lemma ext_match_dot: "ext_match (c # cs) \<Longrightarrow> CHR ''.'' \<notin> set cs"
  by (auto simp: ext_match_def)

lemma strip_ext_extension:
  assumes "ext \<noteq> []" "CHR ''.'' \<notin> set ext" "CHR ''/'' \<notin> set ext"
  shows "strip_ext (base @ ''.'' @ ext) = base"
proof (induction base)
  case Nil
  from assms have "ext_match (CHR ''.'' # ext)" by (auto simp: ext_match_def)
  then show ?case by simp
next
  case (Cons c cs)
  have "\<not> ext_match (c # cs @ ''.'' @ ext)"
    using ext_match_dot [of c "cs @ ''.'' @ ext"] by auto
  with Cons show ?case by simp
qed

lemma strip_ext_no_dot: "CHR ''.'' \<notin> set s \<Longrightarrow> strip_ext s = s"
  by (induction s) (auto simp: ext_match_def)

lemma in_set_butlast_or_last: "xs \<noteq> [] \<Longrightarrow> x \<in> set xs \<Longrightarrow> x \<in> set (butlast xs) \<or> x = last xs"
  by (induction xs) (auto split: if_splits)

text \<open>
  C5. The qualities that the search goes through are those of \<open>quality_ladder\<close>, as long as
  the encodes are larger than the original. When the image decodes, the encodes at the
  first \<open>k\<close> qualities are larger than the original and the encode at the next one is
  smaller, the search makes exactly these \<open>k + 1\<close> encodes and the result carries the last
  of them: its data URL, its number of bytes as the final size (below the original size),
  and as name the original name without its extension followed by
  \<^verbatim>\<open>-optimized.webp\<close>. (For a name \<open>base.ext\<close> whose \<open>ext\<close> is not empty and has neither a
  point nor a slash, the name without its extension is \<open>base\<close>.)
\<close>

theorem use_reencoded_on_ladder:
  assumes d: "decode pf (readAsDataURL file) = Some img"
    and k: "k < length quality_ladder"
    and big: "\<forall>j < k. file_size file <
        length (fetch_blob (toDataURL pf (render img) ''image/webp'' (quality_ladder ! j)))"
    and small: "length (fetch_blob (toDataURL pf (render img) ''image/webp'' (quality_ladder ! k)))
        < file_size file"
  shows "hd quality_ladder = lit_0_8 \<and> ladder_from (hd quality_ladder) (tl quality_ladder) \<and>
     map_option encodes (quality_search pf (render img) (file_size file)) =
       Some (take (Suc k) quality_ladder) \<and>
     processImage pf file =
       Some \<lparr>name = strip_ext (file_name file) @ ''-optimized.webp'',
             url = toDataURL pf (render img) ''image/webp'' (quality_ladder ! k),
             size_p = length (fetch_blob (toDataURL pf (render img) ''image/webp'' (quality_ladder ! k))),
             originalSize = file_size file\<rparr> \<and>
     (\<forall>base ext. file_name file = base @ ''.'' @ ext \<and> ext \<noteq> [] \<and>
          CHR ''.'' \<notin> set ext \<and> CHR ''/'' \<notin> set ext \<longrightarrow>
        strip_ext (file_name file) = base)"
proof -
  let ?enc = "\<lambda>q. toDataURL pf (render img) ''image/webp'' q"
  from big have b: "\<forall>j < k. file_size file < length (body (?enc (quality_ladder ! j)))"
    by (simp add: fetch_blob_def)
  from small have s: "length (body (?enc (quality_ladder ! k))) \<le> file_size file"
    by (simp add: fetch_blob_def)
  from quality_search_stop_at [OF k b s]
  have q: "quality_search pf (render img) (file_size file) =
      Some (encode_at pf (render img) (quality_ladder ! k) (take k quality_ladder))" .
  have "take k quality_ladder @ [quality_ladder ! k] = take (Suc k) quality_ladder"
    using k by (simp add: take_Suc_conv_app_nth)
  with q have tr: "map_option encodes (quality_search pf (render img) (file_size file)) =
       Some (take (Suc k) quality_ladder)"
    by simp
  from small have "\<not> file_size file \<le> length (body (?enc (quality_ladder ! k)))"
    by (simp add: fetch_blob_def)
  with d q have p: "processImage pf file =
       Some \<lparr>name = strip_ext (file_name file) @ ''-optimized.webp'',
             url = ?enc (quality_ladder ! k),
             size_p = length (fetch_blob (?enc (quality_ladder ! k))),
             originalSize = file_size file\<rparr>"
    by (simp add: processImage_def Let_def fetch_blob_def)
  have names: "\<forall>base ext. file_name file = base @ ''.'' @ ext \<and> ext \<noteq> [] \<and>
          CHR ''.'' \<notin> set ext \<and> CHR ''/'' \<notin> set ext \<longrightarrow>
        strip_ext (file_name file) = base"
    using strip_ext_extension by metis
  from hd_ladder ladder_steps tr p names show ?thesis by blast
qed


lemma one_byte_search:
  "quality_search one_byte cv (Suc (Suc (Suc 0))) =
     Some \<lparr>quality = lit_0_8, webpUrl = DataURL ''image/webp'' [82],
           blob = [82], encodes = [lit_0_8]\<rparr>"
  by (simp add: quality_search_descend quality_ladder_def encode_at_def one_byte_def fetch_blob_def
      lit_0_8_value)

text \<open>
  An original of two bytes against an encoder that gives three bytes at 0.8 and one byte
  below: the second encode is returned.
\<close>

theorem use_reencoded_on_ladder_witness:
  "decode shrinking (readAsDataURL (photo 2)) = Some one_pixel \<and>
   (1::nat) < length quality_ladder \<and>
   file_size (photo 2) <
     length (fetch_blob (toDataURL shrinking (render one_pixel) ''image/webp'' (quality_ladder ! 0))) \<and>
   length (fetch_blob (toDataURL shrinking (render one_pixel) ''image/webp'' (quality_ladder ! 1)))
     < file_size (photo 2) \<and>
   map_option encodes (quality_search shrinking (render one_pixel) (file_size (photo 2))) =
     Some (take 2 quality_ladder) \<and>
   processImage shrinking (photo 2) =
     Some \<lparr>name = ''photo-optimized.webp'', url = DataURL ''image/webp'' [82],
           size_p = 1, originalSize = 2\<rparr>"
proof -
  have d: "decode shrinking (readAsDataURL (photo 2)) = Some one_pixel"
    by (simp add: shrinking_def readAsDataURL_def photo_def)
  have k: "(1::nat) < length quality_ladder" by (simp add: length_ladder)
  have b0: "file_size (photo 2) <
     length (fetch_blob (toDataURL shrinking (render one_pixel) ''image/webp'' (quality_ladder ! 0)))"
    by (simp add: shrinking_def fetch_blob_def quality_ladder_def)
  then have big: "\<forall>j < 1. file_size (photo 2) <
     length (fetch_blob (toDataURL shrinking (render one_pixel) ''image/webp'' (quality_ladder ! j)))"
    by simp
  have small: "length (fetch_blob (toDataURL shrinking (render one_pixel) ''image/webp'' (quality_ladder ! 1)))
     < file_size (photo 2)"
    by (simp add: shrinking_def fetch_blob_def quality_ladder_def)
  from use_reencoded_on_ladder [OF d k big small]
  have tr: "map_option encodes (quality_search shrinking (render one_pixel) (file_size (photo 2))) =
       Some (take (Suc 1) quality_ladder)"
    and p: "processImage shrinking (photo 2) =
       Some \<lparr>name = strip_ext (file_name (photo 2)) @ ''-optimized.webp'',
             url = toDataURL shrinking (render one_pixel) ''image/webp'' (quality_ladder ! 1),
             size_p = length (fetch_blob (toDataURL shrinking (render one_pixel) ''image/webp'' (quality_ladder ! 1))),
             originalSize = file_size (photo 2)\<rparr>"
    by blast+
  have n: "strip_ext (file_name (photo 2)) = ''photo''"
    by (simp add: photo_def ext_match_def)
  have u: "toDataURL shrinking (render one_pixel) ''image/webp'' (quality_ladder ! 1) =
      DataURL ''image/webp'' [82]"
    by (simp add: shrinking_def quality_ladder_def)
  from p have "processImage shrinking (photo 2) =
     Some \<lparr>name = ''photo-optimized.webp'', url = DataURL ''image/webp'' [82],
           size_p = 1, originalSize = 2\<rparr>"
    unfolding n u by (simp add: fetch_blob_def)
  moreover from tr have "map_option encodes (quality_search shrinking (render one_pixel) (file_size (photo 2))) =
     Some (take 2 quality_ladder)"
    by (simp add: numeral_2_eq_2)
  ultimately show ?thesis using d k b0 small by blast
qed

text \<open>
  C6. An image that decodes has a result, and every result has as its final size the number
  of bytes that its data URL carries, whichever branch made it.
\<close>

theorem finalSize_is_payload_length:
  "(decode pf (readAsDataURL file) \<noteq> None \<longrightarrow> processImage pf file \<noteq> None) \<and>
   (\<forall>r. processImage pf file = Some r \<longrightarrow> size_p r = length (fetch_blob (url r)))"
proof (cases "decode pf (readAsDataURL file)")
  case None
  then show ?thesis by (simp add: processImage_undecoded)
next
  case (Some img)
  from processImage_decoded [OF Some] obtain s where
    e: "encoded pf (render img) s"
    and p: "processImage pf file =
             Some (if file_size file \<le> length (blob s)
                   then \<lparr>name = file_name file, url = readAsDataURL file,
                         size_p = file_size file, originalSize = file_size file\<rparr>
                   else \<lparr>name = strip_ext (file_name file) @ ''-optimized.webp'',
                         url = webpUrl s,
                         size_p = length (blob s), originalSize = file_size file\<rparr>)"
    by blast
  from e have "blob s = body (webpUrl s)" by (simp add: encoded_def)
  with p show ?thesis
    by (auto simp: fetch_blob_def body_readAsDataURL file_size_def)
qed

text \<open>One result of each branch: the encode kept, and the original kept.\<close>

theorem finalSize_is_payload_length_witness:
  "(\<exists>r. processImage one_byte (photo 3) = Some r \<and> size_p r = length (fetch_blob (url r))) \<and>
   (\<exists>r. processImage two_bytes (photo 2) = Some r \<and> size_p r = length (fetch_blob (url r)))"
proof -
  have "decode one_byte (readAsDataURL (photo 3)) \<noteq> None"
    by (simp add: one_byte_def readAsDataURL_def photo_def)
  moreover have "decode two_bytes (readAsDataURL (photo 2)) \<noteq> None"
    by (simp add: two_bytes_def readAsDataURL_def photo_def)
  ultimately show ?thesis
    using finalSize_is_payload_length [of one_byte "photo 3"]
      finalSize_is_payload_length [of two_bytes "photo 2"]
    by auto
qed

section \<open>The size of the canvas\<close>

lemma floor_near_quotient:
  fixes n w :: nat and p :: rat
  assumes w: "0 < w" and close: "\<bar>p - of_nat n / of_nat w\<bar> < 1 / of_nat w" and p: "0 \<le> p"
  shows "nat \<lfloor>p\<rfloor> = n div w \<or> (w dvd n \<and> nat \<lfloor>p\<rfloor> + 1 = n div w)"
proof -
  define k where "k = nat \<lfloor>p\<rfloor>"
  have k: "of_nat k \<le> p" "p < of_nat k + 1"
    using p unfolding k_def by (simp_all add: of_nat_nat) linarith+
  have wr: "(0::rat) < of_nat w" using w by simp
  from close have "p * of_nat w < of_nat n + 1" "of_nat n - 1 < p * of_nat w"
    using wr by (simp_all add: abs_less_iff field_simps)
  moreover have "(of_nat k :: rat) * of_nat w \<le> p * of_nat w"
    using k(1) wr by (intro mult_right_mono) simp_all
  moreover have "p * of_nat w < (of_nat k + 1) * of_nat w"
    using k(2) wr by (intro mult_strict_right_mono) simp_all
  ultimately have "(of_nat k :: rat) * of_nat w < of_nat n + 1"
    "(of_nat n :: rat) - 1 < (of_nat k + 1) * of_nat w"
    by linarith+
  then have "(of_nat (k * w) :: rat) < of_nat (n + 1)" "(of_nat n :: rat) < of_nat ((k + 1) * w + 1)"
    by (simp_all add: algebra_simps)
  then have "k * w < n + 1" "n < (k + 1) * w + 1"
    by (simp_all only: of_nat_less_iff)
  then have up: "k * w \<le> n" and lo: "n \<le> (k + 1) * w" by simp_all
  from up have kle: "k \<le> n div w"
    using w by (simp add: less_eq_div_iff_mult_less_eq)
  show ?thesis
  proof (cases "w dvd n")
    case True
    then obtain m where m: "n = w * m" ..
    with lo have "w * m \<le> w * (k + 1)" by (simp add: mult.commute)
    with w have "m \<le> k + 1" by (simp only: nat_mult_le_cancel1)
    moreover from m w have "n div w = m" by simp
    ultimately show ?thesis using kle True unfolding k_def [symmetric] by auto
  next
    case False
    have "n \<noteq> (k + 1) * w" using False by auto
    with lo have "n < (k + 1) * w" by simp
    then have "n div w < k + 1"
      using w by (simp add: div_less_iff_less_mult)
    with kle show ?thesis unfolding k_def [symmetric] by simp
  qed
qed

lemma pow2_neg_le: "power_int (2::rat) (- 1022) \<le> 1 / 2 ^ 22"
proof -
  have "power_int (2::rat) (- 1022) \<le> power_int 2 (- 22)"
    by (rule power_int_increasing) simp_all
  also have "power_int (2::rat) (- 22) = 1 / 2 ^ 22"
    by (simp add: power_int_def inverse_eq_divide power_divide)
  finally show ?thesis .
qed

lemma near_pos:
  fixes y z :: rat
  assumes "0 < y" "\<bar>z - y\<bar> \<le> y / 2 ^ 53"
  shows "y / 2 \<le> z" and "z \<le> 2 * y"
proof -
  have "y / 2 ^ 53 \<le> y / 2"
    using assms(1) by (intro divide_left_mono) simp_all
  with assms show "y / 2 \<le> z" and "z \<le> 2 * y" by linarith+
qed

lemma scaled_height_close:
  fixes w h :: nat
  assumes w: "1600 < w" "w < 2 ^ 31" and h: "0 < h" "h < 2 ^ 31"
  defines "p \<equiv> js_mul (of_nat h) (js_div 1600 (of_nat w))"
  shows "0 < p" and "\<bar>p - of_nat (1600 * h) / of_nat w\<bar> < 1 / of_nat w"
proof -
  define a :: rat where "a = 1600 / of_nat w"
  define r where "r = fl a"
  define b where "b = of_nat h * r"
  define x :: rat where "x = of_nat h * a"
  have "(of_nat 1600 :: rat) < of_nat w" "(of_nat w :: rat) < of_nat (2 ^ 31)"
    using w by (simp_all only: of_nat_less_iff)
  then have wr: "(1600::rat) < of_nat w" "(of_nat w :: rat) < 2 ^ 31"
    by simp_all
  have "(of_nat 1 :: rat) \<le> of_nat h" "(of_nat h :: rat) < of_nat (2 ^ 31)"
    using h by (simp_all only: of_nat_less_iff of_nat_le_iff)
  then have hr: "(1::rat) \<le> of_nat h" "(of_nat h :: rat) < 2 ^ 31"
    by simp_all
  have a_lo: "1 / 2 ^ 21 < a" unfolding a_def using wr by (simp add: field_simps)
  have a_pos: "0 < a" unfolding a_def using wr by simp
  have "power_int 2 (- 1022) \<le> a" using pow2_neg_le a_lo by simp
  then have ra: "\<bar>r - a\<bar> \<le> a / 2 ^ 53" unfolding r_def by (rule fl_error)
  have r_lo: "a / 2 \<le> r" and r_hi: "r \<le> 2 * a"
    using near_pos [OF a_pos ra] by simp_all
  have r_pos: "0 < r" using r_lo a_pos by simp
  have "r \<le> b" unfolding b_def using hr(1) r_pos by simp
  with r_lo a_lo have "1 / 2 ^ 22 \<le> b" by simp
  with pow2_neg_le have "power_int 2 (- 1022) \<le> b" by linarith
  then have pb: "\<bar>fl b - b\<bar> \<le> b / 2 ^ 53" by (rule fl_error)
  have p_eq: "p = fl b" unfolding p_def b_def r_def a_def js_mul_def js_div_def by simp
  have b_pos: "0 < b" using \<open>r \<le> b\<close> r_pos by simp
  from near_pos(1) [OF b_pos pb] b_pos show "0 < p" unfolding p_eq by simp
  have x_pos: "0 < x" unfolding x_def using hr a_pos by simp
  have "\<bar>b - x\<bar> = of_nat h * \<bar>r - a\<bar>"
    unfolding b_def x_def by (simp add: abs_mult flip: right_diff_distrib)
  also have "\<dots> \<le> of_nat h * (a / 2 ^ 53)"
    using ra by (intro mult_left_mono) simp_all
  finally have bx: "\<bar>b - x\<bar> \<le> x / 2 ^ 53" unfolding x_def by simp
  have "b \<le> 2 * x" using x_pos bx by (rule near_pos)
  then have "b / 2 ^ 53 \<le> 2 * x / 2 ^ 53" by (intro divide_right_mono) simp_all
  with pb bx have "\<bar>p - x\<bar> \<le> 3 * x / 2 ^ 53" unfolding p_eq by linarith
  moreover have "3 * x / 2 ^ 53 < 1 / of_nat w"
  proof -
    have "x * of_nat w = 1600 * of_nat h" unfolding x_def a_def using wr by simp
    moreover have "3 * (1600 * (of_nat h :: rat)) < 2 ^ 53" using hr(2) by simp
    ultimately have "3 * x * of_nat w < 2 ^ 53" by (simp add: mult.assoc)
    then show ?thesis using wr by (simp add: field_simps)
  qed
  moreover have "x = of_nat (1600 * h) / of_nat w" unfolding x_def a_def by simp
  ultimately show "\<bar>p - of_nat (1600 * h) / of_nat w\<bar> < 1 / of_nat w" by simp
qed

lemma floor_rat_numeral: "\<lfloor>numeral a / numeral b :: rat\<rfloor> = numeral a div numeral b"
  using floor_divide_of_int_eq [of "numeral a" "numeral b", where ?'a = rat] by simp

lemma set_canvas_dim_floor:
  assumes "0 \<le> p" "nat \<lfloor>p\<rfloor> < 2 ^ 31"
  shows "set_canvas_dim dflt p = nat \<lfloor>p\<rfloor>"
proof -
  define k where "k = \<lfloor>p\<rfloor>"
  have k0: "0 \<le> k" using assms(1) unfolding k_def by simp
  with assms(2) have k1: "k < 2 ^ 31" unfolding k_def [symmetric] by simp
  from k0 k1 have "k mod 2 ^ 32 = k" by simp
  moreover from k0 k1 have "nat k \<le> 2147483647" by simp
  moreover have "\<not> p < 0" using assms(1) by simp
  ultimately show ?thesis
    unfolding set_canvas_dim_def to_unsigned_long_def Let_def k_def [symmetric] by simp
qed

lemma set_canvas_dim_of_nat: "n < 2 ^ 31 \<Longrightarrow> set_canvas_dim dflt (of_nat n) = n"
  using set_canvas_dim_floor [of "of_nat n" dflt] by simp

lemma render_narrow:
  assumes "img_width img \<le> 1600" "img_height img < 2 ^ 31"
  shows "canvas_width (render img) = img_width img" "canvas_height (render img) = img_height img"
proof -
  from assms(1) have "img_width img < 2 ^ 31" by simp
  with assms show "canvas_width (render img) = img_width img"
    "canvas_height (render img) = img_height img"
    by (simp_all add: render_def target_size_def set_canvas_dim_of_nat)
qed

lemma render_wide:
  fixes img :: image
  defines "w \<equiv> img_width img" and "h \<equiv> img_height img"
  assumes w: "1600 < w" "w < 2 ^ 31" and h: "h < 2 ^ 31"
  shows "canvas_width (render img) = 1600"
    and "canvas_height (render img) = nat \<lfloor>js_mul (of_nat h) (js_div 1600 (of_nat w))\<rfloor>"
    and "canvas_height (render img) = 1600 * h div w \<or>
         (w dvd 1600 * h \<and> canvas_height (render img) + 1 = 1600 * h div w)"
proof -
  define p where "p = js_mul (of_nat h) (js_div 1600 (of_nat w))"
  have r: "render img = \<lparr>canvas_width = set_canvas_dim 300 1600,
      canvas_height = set_canvas_dim 150 p, canvas_drawn = Some (img, 1600, p)\<rparr>"
    using w(1) unfolding render_def target_size_def p_def w_def h_def by (simp add: Let_def)
  have "set_canvas_dim 300 1600 = 1600"
    using set_canvas_dim_of_nat [of 1600 300] by simp
  with r show "canvas_width (render img) = 1600" by simp
  have q: "1600 * h div w \<le> h"
  proof -
    have "1600 * h div w \<le> 1600 * h div 1600"
      using w(1) by (intro div_le_mono2) simp_all
    then show ?thesis by simp
  qed
  have both: "set_canvas_dim 150 p = nat \<lfloor>p\<rfloor> \<and>
      (nat \<lfloor>p\<rfloor> = 1600 * h div w \<or> (w dvd 1600 * h \<and> nat \<lfloor>p\<rfloor> + 1 = 1600 * h div w))"
  proof (cases "h = 0")
    case True
    then have "p = 0" unfolding p_def js_mul_def by (simp add: fl_def)
    moreover have "set_canvas_dim 150 0 = 0"
      using set_canvas_dim_of_nat [of 0 150] by simp
    ultimately show ?thesis using True by simp
  next
    case False
    then have h0: "0 < h" by simp
    from scaled_height_close [OF w h0 h]
    have p0: "0 < p" and close: "\<bar>p - of_nat (1600 * h) / of_nat w\<bar> < 1 / of_nat w"
      unfolding p_def by simp_all
    have w0: "0 < w" using w(1) by simp
    from floor_near_quotient [OF w0 close] p0
    have fl: "nat \<lfloor>p\<rfloor> = 1600 * h div w \<or> (w dvd 1600 * h \<and> nat \<lfloor>p\<rfloor> + 1 = 1600 * h div w)"
      by simp
    then have "nat \<lfloor>p\<rfloor> \<le> 1600 * h div w" by auto
    with q h have "nat \<lfloor>p\<rfloor> < 2 ^ 31" by linarith
    with p0 have "set_canvas_dim 150 p = nat \<lfloor>p\<rfloor>"
      by (intro set_canvas_dim_floor) simp_all
    with fl show ?thesis by simp
  qed
  with r show "canvas_height (render img) = nat \<lfloor>js_mul (of_nat h) (js_div 1600 (of_nat w))\<rfloor>"
    unfolding p_def by simp
  from both r show "canvas_height (render img) = 1600 * h div w \<or>
         (w dvd 1600 * h \<and> canvas_height (render img) + 1 = 1600 * h div w)"
    by simp
qed

text \<open>
  C3, as amended. For an image whose width and height are below \<open>2^31\<close>: when the width is
  above 1600, the canvas is 1600 wide and its height is the double product
  \<open>height * (1600 / width)\<close> with the fraction cut off; that number is the quotient
  \<open>1600 * height div width\<close> rounded down, or, only when the width divides
  \<open>1600 * height\<close>, possibly one less; when the width is at most 1600, the canvas has the
  dimensions of the image.
\<close>

theorem render_dimensions:
  assumes "img_width img < 2 ^ 31" "img_height img < 2 ^ 31"
  shows "(1600 < img_width img \<longrightarrow>
            canvas_width (render img) = 1600 \<and>
            canvas_height (render img) =
              nat \<lfloor>js_mul (of_nat (img_height img)) (js_div 1600 (of_nat (img_width img)))\<rfloor> \<and>
            (canvas_height (render img) = 1600 * img_height img div img_width img \<or>
             (img_width img dvd 1600 * img_height img \<and>
              canvas_height (render img) + 1 = 1600 * img_height img div img_width img))) \<and>
         (img_width img \<le> 1600 \<longrightarrow>
            canvas_width (render img) = img_width img \<and>
            canvas_height (render img) = img_height img)"
  using assms render_wide [of img] render_narrow [of img] by blast

lemma fl_wide: "js_mul 1001 (js_div 1600 2000) = 7043911292184167 / 8796093022208"
  unfolding js_mul_def js_div_def by code_simp

lemma fl_wide_exact: "js_mul 2105 (js_div 1600 1684) = 8796093022207999 / 4398046511104"
  unfolding js_mul_def js_div_def by code_simp

lemma render_wide_value:
  "render wide = \<lparr>canvas_width = 1600, canvas_height = 800,
     canvas_drawn = Some (wide, 1600, 7043911292184167 / 8796093022208)\<rparr>"
  by (simp add: render_def target_size_def wide_def fl_wide set_canvas_dim_def to_unsigned_long_def
      floor_rat_numeral)

lemma render_wide_exact_value:
  "render wide_exact = \<lparr>canvas_width = 1600, canvas_height = 1999,
     canvas_drawn = Some (wide_exact, 1600, 8796093022207999 / 4398046511104)\<rparr>"
  by (simp add: render_def target_size_def wide_exact_def fl_wide_exact set_canvas_dim_def
      to_unsigned_long_def floor_rat_numeral)

text \<open>
  An image of 2000 by 1001, an image of 1600 by 1200, and an image of 1684 by 2105, whose
  double product 1999.9999999999998 is cut to 1999 where the exact quotient is 2000.
\<close>

theorem render_dimensions_witness:
  "img_width wide < 2 ^ 31 \<and> img_height wide < 2 ^ 31 \<and> 1600 < img_width wide \<and>
   canvas_width (render wide) = 1600 \<and> canvas_height (render wide) = 800 \<and>
   img_width narrow < 2 ^ 31 \<and> img_height narrow < 2 ^ 31 \<and> img_width narrow \<le> 1600 \<and>
   canvas_width (render narrow) = 1600 \<and> canvas_height (render narrow) = 1200 \<and>
   img_width wide_exact < 2 ^ 31 \<and> img_height wide_exact < 2 ^ 31 \<and>
   1600 < img_width wide_exact \<and>
   canvas_height (render wide_exact) = nat \<lfloor>js_mul 2105 (js_div 1600 1684)\<rfloor> \<and>
   nat \<lfloor>js_mul 2105 (js_div 1600 1684)\<rfloor> = 1999 \<and>
   1600 * img_height wide_exact div img_width wide_exact = 2000"
proof -
  have a: "img_width wide < 2 ^ 31" "img_height wide < 2 ^ 31" "1600 < img_width wide"
    by (simp_all add: wide_def)
  have b: "img_width narrow < 2 ^ 31" "img_height narrow < 2 ^ 31" "img_width narrow \<le> 1600"
    by (simp_all add: narrow_def)
  have e: "img_width wide_exact < 2 ^ 31" "img_height wide_exact < 2 ^ 31"
    "1600 < img_width wide_exact"
    by (simp_all add: wide_exact_def)
  from render_dimensions [OF a(1,2)] a(3)
  have "canvas_width (render wide) = 1600"
    and "canvas_height (render wide) = 1600 * img_height wide div img_width wide \<or>
       (img_width wide dvd 1600 * img_height wide \<and>
        canvas_height (render wide) + 1 = 1600 * img_height wide div img_width wide)"
    by blast+
  moreover have "1600 * img_height wide div img_width wide = 800"
    "\<not> img_width wide dvd 1600 * img_height wide"
    by (simp_all add: wide_def)
  ultimately have c: "canvas_width (render wide) = 1600" "canvas_height (render wide) = 800"
    by auto
  from render_dimensions [OF b(1,2)] b(3)
  have "canvas_width (render narrow) = img_width narrow"
    "canvas_height (render narrow) = img_height narrow"
    by blast+
  then have d: "canvas_width (render narrow) = 1600" "canvas_height (render narrow) = 1200"
    by (simp_all add: narrow_def)
  from render_dimensions [OF e(1,2)] e(3)
  have "canvas_height (render wide_exact) =
      nat \<lfloor>js_mul (of_nat (img_height wide_exact)) (js_div 1600 (of_nat (img_width wide_exact)))\<rfloor>"
    by blast
  then have f: "canvas_height (render wide_exact) = nat \<lfloor>js_mul 2105 (js_div 1600 1684)\<rfloor>"
    by (simp add: wide_exact_def)
  have g: "nat \<lfloor>js_mul 2105 (js_div 1600 1684)\<rfloor> = 1999"
    unfolding fl_wide_exact by (simp add: floor_rat_numeral)
  have h: "1600 * img_height wide_exact div img_width wide_exact = 2000"
    by (simp add: wide_exact_def)
  from a b c d e f g h show ?thesis by blast
qed

text \<open>
  C3 as the specification states it (the height rounded to the nearest integer) fails for an
  image of 2000 by 1001: 1001 * 1600 / 2000 is 800.8, which rounds to 801, and the canvas is
  800 high.
\<close>

theorem rounded_height_counterexample:
  "1600 < img_width wide \<and>
   canvas_height (render wide) = 800 \<and>
   round (of_nat (img_height wide) * 1600 / of_nat (img_width wide) :: rat) = 801"
  by (simp add: render_wide_value) (simp add: wide_def round_def floor_rat_numeral)

text \<open>
  The height can fall one below an exact quotient: for 1684 by 2105 the quotient is 2000, the
  double product is 1999.9999999999998, and the canvas is 1999 high.
\<close>

lemma exact_quotient_loss:
  "img_width wide_exact dvd 1600 * img_height wide_exact \<and>
   1600 * img_height wide_exact div img_width wide_exact = 2000 \<and>
   canvas_height (render wide_exact) = 1999"
  by (simp add: render_wide_exact_value) (simp add: wide_exact_def)

section \<open>The batch\<close>

lemma none_count_pos: "None \<in> set vals \<Longrightarrow> 0 < length (filter (\<lambda>v. v = None) vals)"
  by (induction vals) auto

lemma count_none_update:
  "i < length vals \<Longrightarrow> vals ! i = None \<Longrightarrow>
   length (filter (\<lambda>v. v = None) (vals[i := Some x])) = length (filter (\<lambda>v. v = None) vals) - 1"
proof (induction vals arbitrary: i)
  case Nil
  then show ?case by simp
next
  case (Cons v vals)
  show ?case
  proof (cases i)
    case 0
    with Cons.prems show ?thesis by simp
  next
    case (Suc j)
    with Cons.prems have j: "j < length vals" "vals ! j = None" by simp_all
    then have "None \<in> set vals" by (metis nth_mem)
    then have "0 < length (filter (\<lambda>v. v = None) vals)"
      by (rule none_count_pos)
    with Cons.IH [OF j] Suc show ?thesis by simp
  qed
qed

lemma slots_ok_init: "slots_ok ps (replicate (length ps) None) (length ps)"
  by (simp add: slots_ok_def)

lemma slots_ok_update:
  assumes "slots_ok ps vals remaining" "i < length ps" "ps ! i = Some x" "vals ! i = None"
  shows "slots_ok ps (vals[i := ps ! i]) (remaining - 1)"
  using assms by (simp add: slots_ok_def count_none_update)

lemma slots_ok_remaining_pos:
  assumes "slots_ok ps vals remaining" "i < length ps" "vals ! i = None"
  shows "0 < remaining"
proof -
  from assms have "None \<in> set vals" by (metis nth_mem slots_ok_def)
  then have "0 < length (filter (\<lambda>v. v = None) vals)" by (rule none_count_pos)
  with assms(1) show ?thesis by (simp add: slots_ok_def)
qed

lemma slots_ok_full:
  assumes "slots_ok ps vals remaining"
    and "\<forall>i < length ps. vals ! i = None \<or> vals ! i = ps ! i"
    and "\<forall>i < length ps. vals ! i \<noteq> None"
  shows "vals = ps"
  using assms by (intro nth_equalityI) (auto simp: slots_ok_def)

lemma slots_ok_zero:
  assumes "slots_ok ps vals 0" "i < length ps"
  shows "vals ! i \<noteq> None"
proof
  assume "vals ! i = None"
  with assms have "0 < (0::nat)" by (rule slots_ok_remaining_pos)
  then show False by simp
qed

lemma promise_all_run_pending:
  assumes "slots_ok ps vals remaining" "k < length ps" "ps ! k = None" "vals ! k = None"
  shows "promise_all_run ps order vals remaining = None"
  using assms
proof (induction order arbitrary: vals remaining)
  case Nil
  then have "0 < remaining" by (intro slots_ok_remaining_pos)
  then show ?case by simp
next
  case (Cons i order)
  from Cons.prems have pos: "0 < remaining" by (intro slots_ok_remaining_pos)
  show ?case
  proof (cases "i < length ps \<and> ps ! i \<noteq> None \<and> vals ! i = None")
    case True
    then obtain x where x: "ps ! i = Some x" by auto
    from True Cons.prems(3) have ik: "i \<noteq> k" by auto
    have "slots_ok ps (vals[i := ps ! i]) (remaining - 1)"
      using Cons.prems(1) True x by (intro slots_ok_update) simp_all
    moreover have "(vals[i := ps ! i]) ! k = None"
      using ik Cons.prems(4) by simp
    ultimately have "promise_all_run ps order (vals[i := ps ! i]) (remaining - 1) = None"
      using Cons.prems(2,3) by (intro Cons.IH)
    with True pos show ?thesis by simp
  next
    case False
    have "promise_all_run ps order vals remaining = None"
      using Cons.prems by (intro Cons.IH)
    with False pos show ?thesis by auto
  qed
qed

lemma promise_all_run_complete:
  assumes "slots_ok ps vals remaining"
    and "\<forall>i < length ps. ps ! i \<noteq> None"
    and "\<forall>i < length ps. vals ! i = None \<or> vals ! i = ps ! i"
    and "\<forall>i < length ps. vals ! i = None \<longrightarrow> i \<in> set order"
  shows "promise_all_run ps order vals remaining = Some (map the ps)"
  using assms
proof (induction order arbitrary: vals remaining)
  case Nil
  then have full: "\<forall>i < length ps. vals ! i \<noteq> None" by simp
  with Nil.prems have v: "vals = ps" by (intro slots_ok_full)
  from full Nil.prems(1) have "filter (\<lambda>v. v = None) vals = []"
    by (auto simp: filter_empty_conv slots_ok_def in_set_conv_nth)
  with Nil.prems(1) have "remaining = 0" by (simp add: slots_ok_def)
  with v show ?case by simp
next
  case (Cons i order)
  show ?case
  proof (cases "remaining = 0")
    case True
    with Cons.prems(1) have "\<forall>i < length ps. vals ! i \<noteq> None"
      using slots_ok_zero by blast
    with Cons.prems have "vals = ps" by (intro slots_ok_full)
    with True show ?thesis by simp
  next
    case pos: False
    show ?thesis
    proof (cases "i < length ps \<and> ps ! i \<noteq> None \<and> vals ! i = None")
      case True
      then obtain x where x: "ps ! i = Some x" by auto
      let ?vals = "vals[i := ps ! i]"
      have len: "length vals = length ps" using Cons.prems(1) by (simp add: slots_ok_def)
      have a: "slots_ok ps ?vals (remaining - 1)"
        using Cons.prems(1) True x by (intro slots_ok_update) simp_all
      have b: "\<forall>j < length ps. ?vals ! j = None \<or> ?vals ! j = ps ! j"
      proof (intro allI impI)
        fix j assume j: "j < length ps"
        show "?vals ! j = None \<or> ?vals ! j = ps ! j"
        proof (cases "j = i")
          case True
          with j len show ?thesis by simp
        next
          case False
          with Cons.prems(3) j show ?thesis by simp
        qed
      qed
      have c: "\<forall>j < length ps. ?vals ! j = None \<longrightarrow> j \<in> set order"
      proof (intro allI impI)
        fix j assume j: "j < length ps" "?vals ! j = None"
        with x len have "j \<noteq> i" by (auto simp: nth_list_update)
        with j have "vals ! j = None" by simp
        with Cons.prems(4) j(1) \<open>j \<noteq> i\<close> show "j \<in> set order" by auto
      qed
      have "promise_all_run ps order ?vals (remaining - 1) = Some (map the ps)"
        using a Cons.prems(2) b c by (rule Cons.IH)
      with True pos show ?thesis by simp
    next
      case False
      have c: "\<forall>j < length ps. vals ! j = None \<longrightarrow> j \<in> set order"
      proof (intro allI impI)
        fix j assume j: "j < length ps" "vals ! j = None"
        with False Cons.prems(2) have "j \<noteq> i" by auto
        with Cons.prems(4) j show "j \<in> set order" by auto
      qed
      have "promise_all_run ps order vals remaining = Some (map the ps)"
        using Cons.prems(1,2,3) c by (rule Cons.IH)
      with False pos show ?thesis by auto
    qed
  qed
qed

lemma promise_all_pending:
  assumes "k < length ps" "ps ! k = None"
  shows "promise_all ps order = None"
  unfolding promise_all_def using slots_ok_init assms
  by (rule promise_all_run_pending) (simp add: assms(1))

lemma promise_all_complete:
  assumes "\<forall>i < length ps. ps ! i \<noteq> None" "\<forall>i < length ps. i \<in> set order"
  shows "promise_all ps order = Some (map the ps)"
  unfolding promise_all_def using slots_ok_init assms(1)
  by (rule promise_all_run_complete) (simp_all add: assms(2))

lemma processImage_total:
  "decode pf (readAsDataURL file) \<noteq> None \<Longrightarrow> processImage pf file \<noteq> None"
  using processImage_decoded [of pf "file"] by auto

lemma onDrop_all_decoded:
  assumes "\<forall>f \<in> set acceptedFiles. decode pf (readAsDataURL f) \<noteq> None"
    and "\<forall>i < length acceptedFiles. i \<in> set order"
  shows "onDrop pf acceptedFiles order st =
           \<lparr>processedImages = map (the \<circ> processImage pf) acceptedFiles, isProcessing = False\<rparr>"
proof -
  let ?ps = "map (processImage pf) acceptedFiles"
  have "\<forall>i < length ?ps. ?ps ! i \<noteq> None"
    using assms(1) by (simp add: processImage_total)
  moreover have "\<forall>i < length ?ps. i \<in> set order" using assms(2) by simp
  ultimately have "promise_all ?ps order = Some (map the ?ps)"
    by (rule promise_all_complete)
  then show ?thesis by (simp add: onDrop_def Let_def)
qed

lemma onDrop_undecoded:
  assumes "f \<in> set acceptedFiles" "decode pf (readAsDataURL f) = None"
  shows "onDrop pf acceptedFiles order st = st\<lparr>isProcessing := True\<rparr>"
proof -
  let ?ps = "map (processImage pf) acceptedFiles"
  from assms(1) obtain k where k: "k < length acceptedFiles" "acceptedFiles ! k = f"
    by (auto simp: in_set_conv_nth)
  with assms(2) have "k < length ?ps" "?ps ! k = None"
    by (simp_all add: processImage_undecoded)
  then have "promise_all ?ps order = None" by (rule promise_all_pending)
  then show ?thesis by (simp add: onDrop_def Let_def)
qed

text \<open>
  C7. When every file of a batch decodes, then for every order of completion that contains
  each pipeline, the list that \<open>onDrop\<close> stores has one result for each file, and the
  result at position \<open>i\<close> is the result of the file at position \<open>i\<close>.
\<close>

theorem results_in_submission_order:
  assumes "\<forall>f \<in> set acceptedFiles. decode pf (readAsDataURL f) \<noteq> None"
    and "\<forall>i < length acceptedFiles. i \<in> set order"
  shows "length (processedImages (onDrop pf acceptedFiles order st)) = length acceptedFiles \<and>
         (\<forall>i < length acceptedFiles.
            processImage pf (acceptedFiles ! i) =
              Some (processedImages (onDrop pf acceptedFiles order st) ! i) \<and>
            originalSize (processedImages (onDrop pf acceptedFiles order st) ! i) =
              file_size (acceptedFiles ! i))"
proof -
  have r: "processedImages (onDrop pf acceptedFiles order st) =
      map (the \<circ> processImage pf) acceptedFiles"
    using onDrop_all_decoded [OF assms] by simp
  have "processImage pf (acceptedFiles ! i) = Some (the (processImage pf (acceptedFiles ! i))) \<and>
      originalSize (the (processImage pf (acceptedFiles ! i))) = file_size (acceptedFiles ! i)"
    if "i < length acceptedFiles" for i
  proof -
    from that assms(1) have d: "decode pf (readAsDataURL (acceptedFiles ! i)) \<noteq> None" by simp
    then obtain img where "decode pf (readAsDataURL (acceptedFiles ! i)) = Some img" by auto
    from processImage_decoded [OF this] show ?thesis by auto
  qed
  with r show ?thesis by simp
qed

lemma one_byte_photo3:
  "processImage one_byte (photo 3) =
     Some \<lparr>name = ''photo-optimized.webp'', url = DataURL ''image/webp'' [82],
           size_p = 1, originalSize = 3\<rparr>"
  by (simp add: processImage_def one_byte_def readAsDataURL_def photo_def file_size_def
      numeral_3_eq_3 one_byte_search [unfolded one_byte_def] ext_match_def)

lemma one_byte_photo1:
  "processImage one_byte (photo (Suc 0)) =
     Some \<lparr>name = ''photo.png'', url = DataURL ''image/png'' [7], size_p = 1, originalSize = 1\<rparr>"
  by (simp add: processImage_def one_byte_def readAsDataURL_def photo_def file_size_def
      quality_search_descend quality_ladder_def encode_at_def fetch_blob_def)

lemma one_byte_photo0: "processImage one_byte (photo 0) = None"
  by (simp add: processImage_def one_byte_def readAsDataURL_def photo_def)

text \<open>Two files, the second of which completes first.\<close>

theorem results_in_submission_order_witness:
  "decode one_byte (readAsDataURL (photo 3)) \<noteq> None \<and>
   decode one_byte (readAsDataURL (photo 1)) \<noteq> None \<and>
   processedImages (onDrop one_byte [photo 3, photo 1] [1, 0] idle) =
     [\<lparr>name = ''photo-optimized.webp'', url = DataURL ''image/webp'' [82],
        size_p = 1, originalSize = 3\<rparr>,
      \<lparr>name = ''photo.png'', url = DataURL ''image/png'' [7], size_p = 1, originalSize = 1\<rparr>]"
proof -
  let ?out = "processedImages (onDrop one_byte [photo 3, photo 1] [1, 0] idle)"
  have a: "\<forall>f \<in> set [photo 3, photo 1]. decode one_byte (readAsDataURL f) \<noteq> None"
    by (simp add: one_byte_def readAsDataURL_def photo_def)
  have b: "\<forall>i < length [photo 3, photo 1]. i \<in> set [1, 0::nat]"
    by (auto simp: less_Suc_eq)
  from results_in_submission_order [OF a b, of idle]
  have len: "length ?out = 2"
    and nth: "\<forall>i < 2. processImage one_byte ([photo 3, photo 1] ! i) = Some (?out ! i)"
    by simp_all
  from nth have "processImage one_byte (photo 3) = Some (?out ! 0)"
    "processImage one_byte (photo 1) = Some (?out ! 1)"
    by (auto simp: less_Suc_eq numeral_2_eq_2)
  then have "?out ! 0 = \<lparr>name = ''photo-optimized.webp'', url = DataURL ''image/webp'' [82],
        size_p = 1, originalSize = 3\<rparr>"
    "?out ! 1 = \<lparr>name = ''photo.png'', url = DataURL ''image/png'' [7], size_p = 1, originalSize = 1\<rparr>"
    by (simp_all add: one_byte_photo3 one_byte_photo1)
  with len have "?out = [\<lparr>name = ''photo-optimized.webp'', url = DataURL ''image/webp'' [82],
        size_p = 1, originalSize = 3\<rparr>,
      \<lparr>name = ''photo.png'', url = DataURL ''image/png'' [7], size_p = 1, originalSize = 1\<rparr>]"
    by (intro nth_equalityI) (auto simp: less_Suc_eq numeral_2_eq_2)
  moreover from a have "decode one_byte (readAsDataURL (photo 3)) \<noteq> None"
    "decode one_byte (readAsDataURL (photo 1)) \<noteq> None"
    by simp_all
  ultimately show ?thesis by blast
qed

text \<open>
  C2, as amended. When a file of the batch does not decode, its promise is never settled;
  the pipelines of the files that decode do complete, but the join never does:
  \<open>onDrop\<close> sets the processing flag and changes nothing else, whatever the order of
  completion, so no result of the batch is stored.
\<close>

theorem undecodable_resource_stalls_batch:
  assumes "f \<in> set acceptedFiles" "decode pf (readAsDataURL f) = None"
  shows "processImage pf f = None \<and>
         (\<forall>g \<in> set acceptedFiles. decode pf (readAsDataURL g) \<noteq> None \<longrightarrow> processImage pf g \<noteq> None) \<and>
         onDrop pf acceptedFiles order st = st\<lparr>isProcessing := True\<rparr>"
  using assms onDrop_undecoded [OF assms] by (simp add: processImage_undecoded processImage_total)

text \<open>Three files, the second of which has no bytes and does not decode.\<close>

theorem undecodable_resource_stalls_batch_witness:
  "photo 0 \<in> set [photo 3, photo 0, photo 1] \<and>
   decode one_byte (readAsDataURL (photo 0)) = None \<and>
   onDrop one_byte [photo 3, photo 0, photo 1] [2, 0, 1] idle =
     \<lparr>processedImages = [], isProcessing = True\<rparr>"
proof -
  have a: "photo 0 \<in> set [photo 3, photo 0, photo 1]" by simp
  have b: "decode one_byte (readAsDataURL (photo 0)) = None"
    by (simp add: one_byte_def readAsDataURL_def photo_def)
  from undecodable_resource_stalls_batch [OF a b, of "[2, 0, 1]" idle]
  have "onDrop one_byte [photo 3, photo 0, photo 1] [2, 0, 1] idle = idle\<lparr>isProcessing := True\<rparr>"
    by blast
  then have "onDrop one_byte [photo 3, photo 0, photo 1] [2, 0, 1] idle =
     \<lparr>processedImages = [], isProcessing = True\<rparr>"
    by (simp add: idle_def)
  with a b show ?thesis by blast
qed

text \<open>
  C2 as the specification states it fails for that batch: the first and the third pipeline
  complete, and the stored list stays empty with the processing flag set.
\<close>

theorem batch_isolation_counterexample:
  "processImage one_byte (photo 3) \<noteq> None \<and>
   processImage one_byte (photo 0) = None \<and>
   processImage one_byte (photo 1) \<noteq> None \<and>
   processedImages (onDrop one_byte [photo 3, photo 0, photo 1] [0, 2, 1] idle) = [] \<and>
   isProcessing (onDrop one_byte [photo 3, photo 0, photo 1] [0, 2, 1] idle)"
  by (simp add: onDrop_def promise_all_def one_byte_photo3 one_byte_photo1 one_byte_photo0
      idle_def)

section \<open>The text of a size\<close>

lemma digit_cases:
  assumes "d < 10"
  obtains "d = 0" | "d = 1" | "d = 2" | "d = 3" | "d = 4" | "d = 5" | "d = 6" | "d = 7"
    | "d = 8" | "d = (9::nat)"
proof -
  from assms have "d = 0 \<or> d = 1 \<or> d = 2 \<or> d = 3 \<or> d = 4 \<or> d = 5 \<or> d = 6 \<or> d = 7 \<or> d = 8 \<or> d = 9"
    by presburger
  with that show thesis by blast
qed

lemma digit_val_digit_char: "d < 10 \<Longrightarrow> digit_val (digit_char d) = d"
  by (erule digit_cases) (simp_all add: digit_val_def digit_char_def)

lemma digit_char_not_point: "d < 10 \<Longrightarrow> digit_char d \<noteq> CHR ''.''"
  by (erule digit_cases) (simp_all add: digit_char_def)

lemma parse_nat_snoc: "parse_nat (s @ [c]) = 10 * parse_nat s + digit_val c"
  by (simp add: parse_nat_def)

lemma parse_show_nat: "parse_nat (show_nat n) = n"
proof (induction n rule: show_nat.induct)
  case (1 n)
  show ?case
  proof (cases "n < 10")
    case True
    then show ?thesis
      by (subst show_nat.simps) (simp add: parse_nat_def digit_val_digit_char)
  next
    case False
    with "1.IH" have "parse_nat (show_nat (n div 10)) = n div 10" by simp
    with False show ?thesis
      by (subst show_nat.simps) (simp add: parse_nat_snoc digit_val_digit_char)
  qed
qed

lemma show_nat_no_point: "CHR ''.'' \<notin> set (show_nat n)"
proof (induction n rule: show_nat.induct)
  case (1 n)
  show ?case
  proof (cases "n < 10")
    case True
    then show ?thesis
      using digit_char_not_point [of n] by (subst show_nat.simps) auto
  next
    case False
    with "1.IH" have "CHR ''.'' \<notin> set (show_nat (n div 10))" by simp
    with False show ?thesis
      using digit_char_not_point [of "n mod 10"] by (subst show_nat.simps) auto
  qed
qed

lemma show_digits_props:
  "length (show_digits k n) = k \<and> parse_nat (show_digits k n) = n mod 10 ^ k \<and>
   CHR ''.'' \<notin> set (show_digits k n)"
proof (induction k arbitrary: n)
  case 0
  then show ?case by (simp add: parse_nat_def)
next
  case (Suc k)
  have "10 * (n div 10 mod 10 ^ k) + n mod 10 = n mod (10 * 10 ^ k)"
    by (simp add: mod_mult2_eq)
  with Suc [of "n div 10"] show ?case
    using digit_char_not_point [of "n mod 10"]
    by (auto simp: parse_nat_snoc digit_val_digit_char)
qed

lemma parseFloat_point:
  assumes "CHR ''.'' \<notin> set ip"
  shows "parseFloat (ip @ ''.'' @ fp) = of_nat (parse_nat ip) + of_nat (parse_nat fp) / 10 ^ length fp"
proof -
  have "takeWhile (\<lambda>c. c \<noteq> CHR ''.'') (ip @ ''.'' @ fp) = ip"
    using assms by (subst takeWhile_append2) auto
  moreover have "dropWhile (\<lambda>c. c \<noteq> CHR ''.'') (ip @ ''.'' @ fp) = ''.'' @ fp"
    using assms by (subst dropWhile_append2) auto
  ultimately show ?thesis by (simp add: parseFloat_def)
qed

lemma parseFloat_toFixed2:
  assumes "0 \<le> x"
  shows "parseFloat (toFixed 2 x) = of_nat (nat \<lfloor>x * 100 + 1 / 2\<rfloor>) / 100"
proof -
  define n where "n = nat \<lfloor>x * 100 + 1 / 2\<rfloor>"
  have t: "toFixed 2 x = show_nat (n div 100) @ ''.'' @ show_digits 2 n"
    using assms unfolding toFixed_def n_def by (simp add: Let_def)
  have "parseFloat (toFixed 2 x) =
      of_nat (parse_nat (show_nat (n div 100))) + of_nat (parse_nat (show_digits 2 n)) / 10 ^ length (show_digits 2 n)"
    unfolding t by (rule parseFloat_point) (rule show_nat_no_point)
  also have "\<dots> = of_nat (n div 100) + of_nat (n mod 100) / 100"
    using show_digits_props [of 2 n] by (simp add: parse_show_nat)
  also have "\<dots> = of_nat n / 100"
  proof -
    have "of_nat (n div 100 * 100 + n mod 100) = (of_nat n :: rat)"
      by (simp only: div_mult_mod_eq)
    then have "(of_nat n :: rat) = of_nat (n div 100) * 100 + of_nat (n mod 100)"
      by (simp only: of_nat_add of_nat_mult of_nat_numeral)
    then show ?thesis by (simp only: add_divide_distrib)
  qed
  finally show ?thesis unfolding n_def .
qed

lemma number_to_string_hundredths: "number_to_string (of_nat n / 100) = hundredths_text n"
  by (simp add: number_to_string_def)

lemma exponent2_unique:
  assumes "power_int 2 e \<le> x" "x < power_int 2 (e + 1)"
  shows "exponent2 x = e"
proof -
  have "(0::rat) < power_int 2 e" by simp
  with assms(1) have x: "0 < x" by linarith
  have "e \<le> exponent2 x" using assms(1) by (rule exponent2_ge)
  moreover have "exponent2 x < e + 1" using x assms(2) by (rule exponent2_le)
  ultimately show ?thesis by simp
qed

lemma fl_scale_down:
  assumes "power_int 2 (- 1022) \<le> x / 2 ^ k"
  shows "fl (x / 2 ^ k) = fl x / 2 ^ k"
proof -
  have "(0::rat) < power_int 2 (- 1022)" by simp
  with assms have "0 < x / 2 ^ k" by linarith
  then have x: "0 < x" by (simp add: zero_less_divide_iff)
  have "x / 2 ^ k \<le> x / 1" using x by (intro divide_left_mono) simp_all
  then have "x / 2 ^ k \<le> x" by simp
  with assms have lo: "power_int 2 (- 1022) \<le> x" by linarith
  define e where "e = exponent2 x"
  have b: "power_int 2 e \<le> x" "x < power_int 2 (e + 1)"
    unfolding e_def using x by (rule exponent2_bounds)+
  have pk: "(2::rat) ^ k = power_int 2 (int k)" by (simp add: power_int_def)
  have s: "power_int (2::rat) (e - int k + c) = power_int 2 (e + c) / 2 ^ k" for c
  proof -
    have "e - int k + c = (e + c) - int k" by simp
    then have "power_int (2::rat) (e - int k + c) = power_int 2 ((e + c) - int k)"
      by (simp only:)
    also have "\<dots> = power_int 2 (e + c) / power_int 2 (int k)"
      by (rule power_int_diff) simp
    finally show ?thesis unfolding pk .
  qed
  have "power_int 2 (e - int k) \<le> x / 2 ^ k" "x / 2 ^ k < power_int 2 (e - int k + 1)"
    using b s [of 0] s [of 1] by (simp_all add: divide_right_mono divide_strict_right_mono)
  then have e': "exponent2 (x / 2 ^ k) = e - int k" by (rule exponent2_unique)
  have u: "power_int (2::rat) (e - int k - 52) = power_int 2 (e - 52) / 2 ^ k"
    using s [of "- 52"] by simp
  have r1: "x / 2 ^ k / (power_int 2 (e - 52) / 2 ^ k) = x / power_int 2 (e - 52)"
    by simp
  have "fl (x / 2 ^ k) =
      of_int (round_half_even (x / power_int 2 (e - 52))) * (power_int 2 (e - 52) / 2 ^ k)"
    using fl_pos_eq [OF assms] unfolding e' u r1 .
  also have "\<dots> = of_int (round_half_even (x / power_int 2 (e - 52))) * power_int 2 (e - 52) / 2 ^ k"
    by simp
  also have "of_int (round_half_even (x / power_int 2 (e - 52))) * power_int 2 (e - 52) = fl x"
    using fl_pos_eq [OF lo] unfolding e_def by simp
  finally show ?thesis .
qed

lemma fl_of_nat: "n \<le> 2 ^ 53 \<Longrightarrow> fl (of_nat n) = of_nat n"
proof (cases "n = 0")
  case True
  then show ?thesis by (simp add: fl_def)
next
  case False
  assume "n \<le> 2 ^ 53"
  then have "int n \<le> int (2 ^ 53)" by (simp only: of_nat_le_iff)
  then have "int n \<le> 2 ^ 53" by simp
  with False have "fl (of_int (int n)) = of_int (int n)"
    by (intro fl_of_int_pos) simp_all
  then show ?thesis by simp
qed

lemma fl_dyadic:
  assumes "2 ^ k \<le> n" "n \<le> 2 ^ 53"
  shows "fl (of_nat n / 2 ^ k) = of_nat n / 2 ^ k"
proof -
  have "(2::rat) ^ k \<le> of_nat n"
    using assms(1) by (metis of_nat_le_iff of_nat_numeral of_nat_power)
  then have "(1::rat) \<le> of_nat n / 2 ^ k" by (simp add: field_simps)
  moreover have "power_int (2::rat) (- 1022) \<le> 1"
    using power_int_increasing [of "- 1022" 0 "2::rat"] by simp
  ultimately have "power_int 2 (- 1022) \<le> (of_nat n :: rat) / 2 ^ k" by linarith
  then have "fl (of_nat n / 2 ^ k) = fl (of_nat n) / 2 ^ k" by (rule fl_scale_down)
  with assms(2) show ?thesis by (simp add: fl_of_nat)
qed

lemma show_nat_digit: "n < 10 \<Longrightarrow> show_nat n = [digit_char n]"
  by (subst show_nat.simps) simp

lemma rounded_hundredths:
  fixes b K :: nat
  assumes "0 < K"
  defines "n \<equiv> (200 * b + K) div (2 * K)"
  shows "\<bar>of_nat n / 100 - of_nat b / of_nat K\<bar> \<le> (1 / 200 :: rat)"
proof -
  have "2 * K * n \<le> 200 * b + K" unfolding n_def by simp
  then have "(of_nat (2 * K * n) :: rat) \<le> of_nat (200 * b + K)" by (simp only: of_nat_le_iff)
  then have up: "2 * of_nat K * (of_nat n :: rat) \<le> 200 * of_nat b + of_nat K" by simp
  have "200 * b + K < 2 * K * Suc n"
    unfolding n_def using assms(1) by (simp add: dividend_less_times_div)
  then have "(of_nat (200 * b + K) :: rat) < of_nat (2 * K * Suc n)" by (simp only: of_nat_less_iff)
  then have lo: "200 * of_nat b + of_nat K < 2 * of_nat K * ((of_nat n :: rat) + 1)"
    by (simp add: algebra_simps)
  have K: "(0::rat) < of_nat K" using assms(1) by simp
  define D :: rat where "D = 2 * of_nat K * of_nat n - 200 * of_nat b"
  have eq: "of_nat n / 100 - of_nat b / of_nat K = D / (200 * of_nat K)"
    unfolding D_def using K by (simp add: field_simps)
  have D: "\<bar>D\<bar> \<le> of_nat K"
    unfolding D_def using up lo by (simp add: abs_le_iff algebra_simps)
  have "\<bar>D / (200 * of_nat K)\<bar> = \<bar>D\<bar> / (200 * of_nat K)"
    using K by (simp only: abs_divide)
  also have "\<dots> \<le> of_nat K / (200 * of_nat K)"
    using D K by (intro divide_right_mono) simp_all
  also have "\<dots> = 1 / 200" using K by simp
  finally show ?thesis unfolding eq .
qed

text \<open>
  The values of the logarithm at the powers of two that the units turn on, each rounding
  checked from the binade and the significand of its result.
\<close>

lemma round_half_even_near:
  assumes "\<bar>y - of_int m\<bar> < 1 / 2"
  shows "round_half_even y = m"
proof -
  have "of_int \<lfloor>y\<rfloor> \<le> y" "y < of_int \<lfloor>y\<rfloor> + 1" by linarith+
  with assms have "of_int \<lfloor>y\<rfloor> < (of_int m :: rat) + 1" "(of_int m :: rat) < of_int \<lfloor>y\<rfloor> + 2"
    by linarith+
  then have "of_int \<lfloor>y\<rfloor> < (of_int (m + 1) :: rat)" "(of_int m :: rat) < of_int (\<lfloor>y\<rfloor> + 2)"
    by simp_all
  then have "\<lfloor>y\<rfloor> < m + 1" "m < \<lfloor>y\<rfloor> + 2"
    by (simp_all only: of_int_less_iff)
  then consider "\<lfloor>y\<rfloor> = m" | "\<lfloor>y\<rfloor> = m - 1" by linarith
  then show ?thesis
  proof cases
    case 1
    have "y - of_int \<lfloor>y\<rfloor> < 1 / 2" using assms unfolding 1 by linarith
    then show ?thesis by (simp add: round_half_even_def Let_def 1)
  next
    case 2
    have "of_int \<lfloor>y\<rfloor> = (of_int m :: rat) - 1" unfolding 2 by simp
    with assms have "1 / 2 < y - of_int \<lfloor>y\<rfloor>" by linarith
    then show ?thesis by (simp add: round_half_even_def Let_def 2)
  qed
qed

text \<open>
  The double of a positive number from its binade \<open>2^a / 2^b\<close> and its significand \<open>m\<close>.
\<close>

lemma fl_eval:
  fixes a b :: nat
  assumes "2 ^ a \<le> x * 2 ^ b" "x * 2 ^ b < 2 * 2 ^ a" "b \<le> a + 1022"
    and "\<bar>x * 2 ^ (b + 52) / 2 ^ a - of_int m\<bar> < 1 / 2"
    and "r = of_int m * 2 ^ a / 2 ^ (b + 52)"
  shows "fl x = r"
proof -
  define e where "e = int a - int b"
  have pe: "power_int (2::rat) e = 2 ^ a / 2 ^ b"
    unfolding e_def by (simp add: power_int_diff)
  have pe1: "power_int (2::rat) (e + 1) = 2 * 2 ^ a / 2 ^ b"
    using pe by (simp add: power_int_add)
  have pu: "power_int (2::rat) (e - 52) = 2 ^ a / 2 ^ (b + 52)"
    using pe by (simp add: power_int_diff power_add)
  have "power_int 2 e \<le> x" "x < power_int 2 (e + 1)"
    unfolding pe pe1 using assms(1,2) by (simp_all add: field_simps)
  then have ex: "exponent2 x = e" by (rule exponent2_unique)
  have "- 1022 \<le> e" using assms(3) by (simp add: e_def)
  then have "power_int (2::rat) (- 1022) \<le> power_int 2 e"
    by (intro power_int_increasing) simp_all
  with \<open>power_int 2 e \<le> x\<close> have "power_int 2 (- 1022) \<le> x" by linarith
  from fl_pos_eq [OF this]
  have "fl x = of_int (round_half_even (x / power_int 2 (e - 52))) * power_int 2 (e - 52)"
    unfolding ex .
  moreover have "x / power_int 2 (e - 52) = x * 2 ^ (b + 52) / 2 ^ a"
    unfolding pu by simp
  ultimately show ?thesis
    using round_half_even_near [OF assms(4)] pu assms(5) by simp
qed

lemma log_of_power_9: "log_of_power 9 = 7023729114186029 / 1125899906842624"
proof -
  have a: "fl (9 * ln2_hi) = 26793400239 / 4294967296"
    unfolding ln2_hi_def by (rule fl_eval [where a = 2 and b = 0 and m = 7023729112252416]) simp_all
  have b: "fl (9 * ln2_lo) = 8304805070529541 / 4835703278458516698824704"
    unfolding ln2_lo_def by (rule fl_eval [where a = 0 and b = 30 and m = 8304805070529541]) simp_all
  have c: "fl (26793400239 / 4294967296 + 8304805070529541 / 4835703278458516698824704) = 7023729114186029 / 1125899906842624"
    by (rule fl_eval [where a = 2 and b = 0 and m = 7023729114186029]) simp_all
  show ?thesis
    unfolding log_of_power_def js_add_def js_mul_def of_int_numeral a b c ..
qed

lemma log_of_power_10: "log_of_power 10 = 7804143460206699 / 1125899906842624"
proof -
  have a: "fl (10 * ln2_hi) = 14885222355 / 2147483648"
    unfolding ln2_hi_def by (rule fl_eval [where a = 2 and b = 0 and m = 7804143458058240]) simp_all
  have b: "fl (10 * ln2_lo) = 2306890297369317 / 1208925819614629174706176"
    unfolding ln2_lo_def by (rule fl_eval [where a = 0 and b = 29 and m = 4613780594738634]) simp_all
  have c: "fl (14885222355 / 2147483648 + 2306890297369317 / 1208925819614629174706176) = 7804143460206699 / 1125899906842624"
    by (rule fl_eval [where a = 2 and b = 0 and m = 7804143460206699]) simp_all
  show ?thesis
    unfolding log_of_power_def js_add_def js_mul_def of_int_numeral a b c ..
qed

lemma log_of_power_19: "log_of_power 19 = 1853484071799091 / 140737488355328"
proof -
  have a: "fl (19 * ln2_hi) = 56563844949 / 4294967296"
    unfolding ln2_hi_def by (rule fl_eval [where a = 3 and b = 0 and m = 7413936285155328]) simp_all
  have b: "fl (19 * ln2_lo) = 2191545782500851 / 604462909807314587353088"
    unfolding ln2_lo_def by (rule fl_eval [where a = 0 and b = 29 and m = 8766183130003404]) simp_all
  have c: "fl (56563844949 / 4294967296 + 2191545782500851 / 604462909807314587353088) = 1853484071799091 / 140737488355328"
    by (rule fl_eval [where a = 3 and b = 0 and m = 7413936287196364]) simp_all
  show ?thesis
    unfolding log_of_power_def js_add_def js_mul_def of_int_numeral a b c ..
qed

lemma log_of_power_20: "log_of_power 20 = 7804143460206699 / 562949953421312"
proof -
  have a: "fl (20 * ln2_hi) = 14885222355 / 1073741824"
    unfolding ln2_hi_def by (rule fl_eval [where a = 3 and b = 0 and m = 7804143458058240]) simp_all
  have b: "fl (20 * ln2_lo) = 2306890297369317 / 604462909807314587353088"
    unfolding ln2_lo_def by (rule fl_eval [where a = 0 and b = 28 and m = 4613780594738634]) simp_all
  have c: "fl (14885222355 / 1073741824 + 2306890297369317 / 604462909807314587353088) = 7804143460206699 / 562949953421312"
    by (rule fl_eval [where a = 3 and b = 0 and m = 7804143460206699]) simp_all
  show ?thesis
    unfolding log_of_power_def js_add_def js_mul_def of_int_numeral a b c ..
qed

lemma log_of_power_29: "log_of_power 29 = 5658004008649857 / 281474976710656"
proof -
  have a: "fl (29 * ln2_hi) = 86334289659 / 4294967296"
    unfolding ln2_hi_def by (rule fl_eval [where a = 4 and b = 0 and m = 5658004007092224]) simp_all
  have b: "fl (29 * ln2_lo) = 6689981862371019 / 1208925819614629174706176"
    unfolding ln2_lo_def by (rule fl_eval [where a = 0 and b = 28 and m = 6689981862371019]) simp_all
  have c: "fl (86334289659 / 4294967296 + 6689981862371019 / 1208925819614629174706176) = 5658004008649857 / 281474976710656"
    by (rule fl_eval [where a = 4 and b = 0 and m = 5658004008649857]) simp_all
  show ?thesis
    unfolding log_of_power_def js_add_def js_mul_def of_int_numeral a b c ..
qed

lemma log_of_power_30: "log_of_power 30 = 365819224697189 / 17592186044416"
proof -
  have a: "fl (30 * ln2_hi) = 44655667065 / 2147483648"
    unfolding ln2_hi_def by (rule fl_eval [where a = 4 and b = 0 and m = 5853107593543680]) simp_all
  have b: "fl (30 * ln2_lo) = 6920670892107951 / 1208925819614629174706176"
    unfolding ln2_lo_def by (rule fl_eval [where a = 0 and b = 28 and m = 6920670892107951]) simp_all
  have c: "fl (44655667065 / 2147483648 + 6920670892107951 / 1208925819614629174706176) = 365819224697189 / 17592186044416"
    by (rule fl_eval [where a = 4 and b = 0 and m = 5853107595155024]) simp_all
  show ?thesis
    unfolding log_of_power_def js_add_def js_mul_def of_int_numeral a b c ..
qed

lemma log_of_power_32: "log_of_power 32 = 6243314768165359 / 281474976710656"
proof -
  have a: "fl (32 * ln2_hi) = 2977044471 / 134217728"
    unfolding ln2_hi_def by (rule fl_eval [where a = 4 and b = 0 and m = 6243314766446592]) simp_all
  have b: "fl (32 * ln2_lo) = 3691024475790907 / 604462909807314587353088"
    unfolding ln2_lo_def by (rule fl_eval [where a = 0 and b = 28 and m = 7382048951581814]) simp_all
  have c: "fl (2977044471 / 134217728 + 3691024475790907 / 604462909807314587353088) = 6243314768165359 / 281474976710656"
    by (rule fl_eval [where a = 4 and b = 0 and m = 6243314768165359]) simp_all
  show ?thesis
    unfolding log_of_power_def js_add_def js_mul_def of_int_numeral a b c ..
qed

lemma quotient_20: "js_div (log_of_power 20) (log_of_power 10) = 2"
  unfolding js_div_def log_of_power_10 log_of_power_20
  by (rule fl_eval [where a = 1 and b = 0 and m = 4503599627370496]) simp_all

lemma quotient_30: "js_div (log_of_power 30) (log_of_power 10) = 3"
  unfolding js_div_def log_of_power_10 log_of_power_30
  by (rule fl_eval [where a = 1 and b = 0 and m = 6755399441055744]) simp_all

lemma quotient_32: "js_div (log_of_power 32) (log_of_power 10) = 7205759403792793 / 2251799813685248"
  unfolding js_div_def log_of_power_10 log_of_power_32
  by (rule fl_eval [where a = 1 and b = 0 and m = 7205759403792793]) simp_all

lemma quotient_below_1: "js_div (69305 / 10000) (log_of_power 10) = 4502968214092289 / 4503599627370496"
  unfolding js_div_def log_of_power_10 
  by (rule fl_eval [where a = 0 and b = 1 and m = 9005936428184578]) simp_all

lemma quotient_below_2: "js_div (13862943 / 1000000) (log_of_power 10) = 2251799714406363 / 1125899906842624"
  unfolding js_div_def log_of_power_10 
  by (rule fl_eval [where a = 0 and b = 0 and m = 9007198857625452]) simp_all

lemma quotient_below_3: "js_div (207944154165 / 10000000000) (log_of_power 10) = 6755399440958817 / 2251799813685248"
  unfolding js_div_def log_of_power_10 
  by (rule fl_eval [where a = 1 and b = 0 and m = 6755399440958817]) simp_all

text \<open>The logarithm of the examples does what \<open>log_ok\<close> asks.\<close>

lemma bit_length_mono: "m \<le> n \<Longrightarrow> bit_length m \<le> bit_length n"
proof (induction n arbitrary: m rule: bit_length.induct)
  case (1 n)
  show ?case
  proof (cases "m \<le> 0")
    case True
    then have "bit_length m = 0" by (subst bit_length.simps) simp
    then show ?thesis using bit_length_nonneg [of n] by simp
  next
    case False
    with "1.prems" have n: "\<not> n \<le> 0" by simp
    from "1.prems" have "m div 2 \<le> n div 2" by (rule zdiv_mono1) simp
    with "1.IH" n have "bit_length (m div 2) \<le> bit_length (n div 2)" by simp
    moreover have "bit_length m = 1 + bit_length (m div 2)"
      using False by (subst bit_length.simps) simp
    moreover have "bit_length n = 1 + bit_length (n div 2)"
      using n by (subst bit_length.simps) simp
    ultimately show ?thesis by simp
  qed
qed

lemma bit_length_unique:
  assumes "2 ^ k \<le> n" "n < 2 * 2 ^ k"
  shows "bit_length n = int k + 1"
proof -
  have "(0::int) < 2 ^ k" by simp
  with assms(1) have n: "0 < n" by linarith
  define b where "b = bit_length n"
  have b: "0 < b" unfolding b_def using n by (rule bit_length_pos)
  from bit_length_bounds [OF n]
  have lo: "(2::int) ^ nat (b - 1) \<le> n" and hi: "n < 2 ^ nat b" unfolding b_def by simp_all
  from lo assms(2) have "(2::int) ^ nat (b - 1) < 2 ^ Suc k" by simp
  then have 1: "nat (b - 1) < Suc k" by (simp only: power_strict_increasing_iff) 
  from assms(1) hi have "(2::int) ^ k < 2 ^ nat b" by linarith
  then have 2: "k < nat b" by (simp only: power_strict_increasing_iff)
  from 1 2 b have "b = int k + 1" by linarith
  then show ?thesis unfolding b_def .
qed

lemma step_log_eval:
  assumes "2 ^ k \<le> x" "x < 2 * 2 ^ k"
  shows "step_log x = log_of_power (int k)"
proof -
  have "(of_int (2 ^ k) :: rat) \<le> x" using assms(1) by simp
  then have lo: "2 ^ k \<le> \<lfloor>x\<rfloor>" by (simp only: le_floor_iff)
  have "x < of_int (2 * 2 ^ k)" using assms(2) by simp
  then have hi: "\<lfloor>x\<rfloor> < 2 * 2 ^ k" by (simp only: floor_less_iff)
  from lo hi have "bit_length \<lfloor>x\<rfloor> = int k + 1" by (rule bit_length_unique)
  then show ?thesis by (simp add: step_log_def)
qed

lemma log_of_power_mono:
  assumes "0 \<le> j" "j \<le> k"
  shows "log_of_power j \<le> log_of_power k"
proof -
  have hi: "0 \<le> ln2_hi" and lo: "0 \<le> ln2_lo" by (simp_all add: ln2_hi_def ln2_lo_def)
  have jk: "(0::rat) \<le> of_int j" "(of_int j :: rat) \<le> of_int k" using assms by simp_all
  have a: "js_mul (of_int j) ln2_hi \<le> js_mul (of_int k) ln2_hi"
    unfolding js_mul_def using jk hi by (intro fl_mono mult_right_mono) simp_all
  have b: "js_mul (of_int j) ln2_lo \<le> js_mul (of_int k) ln2_lo"
    unfolding js_mul_def using jk lo by (intro fl_mono mult_right_mono) simp_all
  have "0 \<le> js_mul (of_int j) ln2_hi" "0 \<le> js_mul (of_int j) ln2_lo"
    unfolding js_mul_def using jk hi lo by (simp_all add: fl_nonneg)
  with a b show ?thesis
    unfolding log_of_power_def js_add_def by (intro fl_mono) simp_all
qed

lemma step_log_monotone: "log_monotone step_log"
  unfolding log_monotone_def
proof (intro allI impI)
  fix x y :: rat
  assume xy: "1 \<le> x \<and> x \<le> y"
  then have "1 \<le> \<lfloor>x\<rfloor>" "\<lfloor>x\<rfloor> \<le> \<lfloor>y\<rfloor>" by (simp_all add: floor_mono)
  then have "0 < bit_length \<lfloor>x\<rfloor>" "bit_length \<lfloor>x\<rfloor> \<le> bit_length \<lfloor>y\<rfloor>"
    by (simp_all add: bit_length_pos bit_length_mono)
  then show "step_log x \<le> step_log y"
    unfolding step_log_def by (intro log_of_power_mono) simp_all
qed

lemma log_of_power_0: "log_of_power 0 = 0"
  by (simp add: log_of_power_def js_add_def js_mul_def fl_def)

lemma step_log_values:
  "step_log 1 = 0"
  "step_log 1023 = log_of_power 9"
  "step_log 1024 = log_of_power 10"
  "step_log 1048575 = log_of_power 19"
  "step_log 1048576 = log_of_power 20"
  "step_log 1073741823 = log_of_power 29"
  "step_log 1073741824 = log_of_power 30"
  "step_log 5368709120 = log_of_power 32"
  using step_log_eval [of 0 1] step_log_eval [of 9 1023] step_log_eval [of 10 1024]
    step_log_eval [of 19 1048575] step_log_eval [of 20 1048576]
    step_log_eval [of 29 1073741823] step_log_eval [of 30 1073741824]
    step_log_eval [of 32 5368709120]
  by (simp_all add: log_of_power_0)

lemma step_log_ok: "log_ok step_log"
  unfolding log_ok_def using step_log_monotone
  by (simp add: step_log_values log_of_power_9 log_of_power_19 log_of_power_29)

lemma log_monotoneD:
  "log_monotone Math_log \<Longrightarrow> 1 \<le> x \<Longrightarrow> x \<le> y \<Longrightarrow> Math_log x \<le> Math_log y"
  by (simp add: log_monotone_def)

text \<open>
  The index of a byte count between \<open>a\<close> and \<open>b\<close>, from the quotients at \<open>a\<close> and above
  \<open>b\<close>.
\<close>

lemma index_between:
  fixes a b bytes :: nat
  assumes mono: "log_monotone Math_log" and d: "0 < Math_log 1024"
    and a0: "0 \<le> Math_log (of_nat a)"
    and lo: "of_int j \<le> js_div (Math_log (of_nat a)) (Math_log 1024)"
    and up: "Math_log (of_nat b) \<le> c"
    and hi: "js_div c (Math_log 1024) < of_int j + 1"
    and ab: "1 \<le> a" "a \<le> bytes" "bytes \<le> b"
  shows "\<lfloor>js_div (Math_log (of_nat bytes)) (Math_log 1024)\<rfloor> = j"
proof -
  have r: "(1::rat) \<le> of_nat a" "(of_nat a :: rat) \<le> of_nat bytes"
    "(of_nat bytes :: rat) \<le> of_nat b"
    using ab by simp_all
  have 1: "Math_log (of_nat a) \<le> Math_log (of_nat bytes)"
    using mono r(1,2) by (rule log_monotoneD)
  have "(1::rat) \<le> of_nat bytes" using r(1,2) by linarith
  with mono have "Math_log (of_nat bytes) \<le> Math_log (of_nat b)"
    using r(3) by (rule log_monotoneD)
  with up have 2: "Math_log (of_nat bytes) \<le> c" by linarith
  have 0: "0 \<le> Math_log (of_nat bytes)" using a0 1 by linarith
  have "js_div (Math_log (of_nat a)) (Math_log 1024)
      \<le> js_div (Math_log (of_nat bytes)) (Math_log 1024)"
    using a0 1 d by (rule js_div_mono)
  moreover have "js_div (Math_log (of_nat bytes)) (Math_log 1024) \<le> js_div c (Math_log 1024)"
    using 0 2 d by (rule js_div_mono)
  ultimately have "of_int j \<le> js_div (Math_log (of_nat bytes)) (Math_log 1024)"
    "js_div (Math_log (of_nat bytes)) (Math_log 1024) < of_int j + 1"
    using lo hi by linarith+
  then show ?thesis by (simp add: floor_eq_iff)
qed

lemma log_of_power_10_pos: "0 < log_of_power 10"
  by (simp add: log_of_power_10)

lemma quotient_10: "js_div (log_of_power 10) (log_of_power 10) = 1"
  unfolding js_div_def log_of_power_10
  by (rule fl_eval [where a = 0 and b = 0 and m = 4503599627370496]) simp_all

lemma quotient_0: "js_div 0 (log_of_power 10) = 0"
  by (simp add: js_div_def fl_def)

lemma unit_index:
  fixes bytes :: nat
  assumes "log_ok Math_log"
  shows "0 < bytes \<Longrightarrow> bytes < 1024 \<Longrightarrow>
           \<lfloor>js_div (Math_log (of_nat bytes)) (Math_log 1024)\<rfloor> = 0"
    and "1024 \<le> bytes \<Longrightarrow> bytes < 1024 ^ 2 \<Longrightarrow>
           \<lfloor>js_div (Math_log (of_nat bytes)) (Math_log 1024)\<rfloor> = 1"
    and "1024 ^ 2 \<le> bytes \<Longrightarrow> bytes < 1024 ^ 3 \<Longrightarrow>
           \<lfloor>js_div (Math_log (of_nat bytes)) (Math_log 1024)\<rfloor> = 2"
proof -
  from assms have mono: "log_monotone Math_log" and l1: "Math_log 1 = 0"
    and l10: "Math_log 1024 = log_of_power 10" and l20: "Math_log 1048576 = log_of_power 20"
    and u1: "Math_log 1023 \<le> 69305 / 10000"
    and u2: "Math_log 1048575 \<le> 13862943 / 1000000"
    and u3: "Math_log 1073741823 \<le> 207944154165 / 10000000000"
    by (simp_all add: log_ok_def)
  have d: "0 < Math_log 1024" unfolding l10 by (rule log_of_power_10_pos)
  show "\<lfloor>js_div (Math_log (of_nat bytes)) (Math_log 1024)\<rfloor> = 0"
    if "0 < bytes" "bytes < 1024"
  proof (rule index_between [OF mono d, where a = 1 and b = 1023 and c = "69305 / 10000"])
    show "0 \<le> Math_log (of_nat 1)" by (simp add: l1)
    show "of_int 0 \<le> js_div (Math_log (of_nat 1)) (Math_log 1024)"
      by (simp add: l1 l10 quotient_0)
    show "Math_log (of_nat 1023) \<le> 69305 / 10000" using u1 by simp
    show "js_div (69305 / 10000) (Math_log 1024) < of_int 0 + 1"
      unfolding l10 quotient_below_1 by simp
    show "1 \<le> (1::nat)" "1 \<le> bytes" "bytes \<le> 1023" using that by simp_all
  qed
  show "\<lfloor>js_div (Math_log (of_nat bytes)) (Math_log 1024)\<rfloor> = 1"
    if "1024 \<le> bytes" "bytes < 1024 ^ 2"
  proof (rule index_between [OF mono d, where a = 1024 and b = 1048575
        and c = "13862943 / 1000000"])
    show "0 \<le> Math_log (of_nat 1024)" using d by simp
    show "of_int 1 \<le> js_div (Math_log (of_nat 1024)) (Math_log 1024)"
      by (simp add: l10 quotient_10)
    show "Math_log (of_nat 1048575) \<le> 13862943 / 1000000" using u2 by simp
    show "js_div (13862943 / 1000000) (Math_log 1024) < of_int 1 + 1"
      unfolding l10 quotient_below_2 by simp
    show "1 \<le> (1024::nat)" "1024 \<le> bytes" "bytes \<le> 1048575" using that by simp_all
  qed
  show "\<lfloor>js_div (Math_log (of_nat bytes)) (Math_log 1024)\<rfloor> = 2"
    if "1024 ^ 2 \<le> bytes" "bytes < 1024 ^ 3"
  proof (rule index_between [OF mono d, where a = 1048576 and b = 1073741823
        and c = "207944154165 / 10000000000"])
    show "0 \<le> Math_log (of_nat 1048576)" by (simp add: l20 log_of_power_20)
    show "of_int 2 \<le> js_div (Math_log (of_nat 1048576)) (Math_log 1024)"
      by (simp add: l10 l20 quotient_20)
    show "Math_log (of_nat 1073741823) \<le> 207944154165 / 10000000000" using u3 by simp
    show "js_div (207944154165 / 10000000000) (Math_log 1024) < of_int 2 + 1"
      unfolding l10 quotient_below_3 by simp
    show "1 \<le> (1048576::nat)" "1048576 \<le> bytes" "bytes \<le> 1073741823" using that by simp_all
  qed
qed

text \<open>The number before the unit, for an index \<open>i\<close> whose power is not above the count.\<close>

lemma size_number:
  fixes bytes i :: nat
  assumes "1024 ^ i \<le> bytes" "bytes \<le> 2 ^ 53"
  shows "number_to_string (parseFloat (toFixed 2 (js_div (of_nat bytes) (power_int 1024 (int i))))) =
     hundredths_text ((200 * bytes + 1024 ^ i) div (2 * 1024 ^ i))"
proof -
  have p: "(1024::nat) ^ i = 2 ^ (10 * i)" by (simp add: power_mult)
  have pr: "power_int (1024::rat) (int i) = 2 ^ (10 * i)" by (simp add: power_mult)
  have d: "js_div (of_nat bytes) (power_int 1024 (int i)) = of_nat bytes / of_nat (1024 ^ i)"
  proof -
    have "fl (of_nat bytes / 2 ^ (10 * i)) = of_nat bytes / 2 ^ (10 * i)"
      using assms unfolding p by (rule fl_dyadic)
    then show ?thesis unfolding js_div_def pr by (simp add: power_mult)
  qed
  define x :: rat where "x = of_nat bytes / of_nat (1024 ^ i)"
  have x0: "0 \<le> x" unfolding x_def by simp
  have "x * 100 + 1 / 2 = of_nat (200 * bytes + 1024 ^ i) / of_nat (2 * 1024 ^ i)"
    unfolding x_def by (simp add: field_simps)
  then have "\<lfloor>x * 100 + 1 / 2\<rfloor> = int ((200 * bytes + 1024 ^ i) div (2 * 1024 ^ i))"
    by (simp only: floor_divide_of_nat_eq)
  then have n: "nat \<lfloor>x * 100 + 1 / 2\<rfloor> = (200 * bytes + 1024 ^ i) div (2 * 1024 ^ i)"
    by simp
  show ?thesis
    unfolding d x_def [symmetric] parseFloat_toFixed2 [OF x0] number_to_string_hundredths n ..
qed

lemma formatSize_text:
  fixes bytes i :: nat
  assumes "0 < bytes" "bytes \<le> 2 ^ 53" "1024 ^ i \<le> bytes"
    and "\<lfloor>js_div (Math_log (of_nat bytes)) (Math_log 1024)\<rfloor> = int i"
  shows "formatSize Math_log bytes =
     hundredths_text ((200 * bytes + 1024 ^ i) div (2 * 1024 ^ i))
       @ '' '' @ element_text sizes (int i)"
  using assms(1) unfolding formatSize_def Let_def assms(4) size_number [OF assms(3,2)]
  by simp

lemma formatSize_examples:
  assumes "log_ok Math_log"
  shows "formatSize Math_log 0 = ''0 Bytes''" "formatSize Math_log 1536 = ''1.5 KB''"
    "formatSize Math_log 3145728 = ''3 MB''"
proof -
  show "formatSize Math_log 0 = ''0 Bytes''" by (simp add: formatSize_def)
  have a: "\<lfloor>js_div (Math_log (of_nat 1536)) (Math_log 1024)\<rfloor> = int 1"
    using unit_index(2) [OF assms, of 1536] by simp
  have b: "\<lfloor>js_div (Math_log (of_nat 3145728)) (Math_log 1024)\<rfloor> = int 2"
    using unit_index(3) [OF assms, of 3145728] by simp
  show "formatSize Math_log 1536 = ''1.5 KB''"
    by (subst formatSize_text [OF _ _ _ a])
      (simp_all add: hundredths_text_def show_nat_digit digit_char_def element_text_def sizes_def)
  show "formatSize Math_log 3145728 = ''3 MB''"
    by (subst formatSize_text [OF _ _ _ b])
      (simp_all add: hundredths_text_def show_nat_digit digit_char_def element_text_def sizes_def)
qed

text \<open>
  C9. On an engine whose \<^verbatim>\<open>Math.log\<close> is as \<open>log_ok\<close> asks: the three examples, and for
  every byte count from 1 to below \<open>1024^3\<close> the index that the program computes is the
  \<open>i\<close> with \<open>1024^i \<le> bytes < 1024^(i+1)\<close>, the unit is the one of \<open>Bytes\<close>, \<open>KB\<close>, \<open>MB\<close>
  at that index, and the number before it is \<open>bytes / 1024^i\<close> rounded to hundredths (at
  most 1/200 away), written without trailing zeros.
\<close>

theorem formatSize_units:
  assumes "log_ok Math_log"
  shows "formatSize Math_log 0 = ''0 Bytes'' \<and> formatSize Math_log 1536 = ''1.5 KB'' \<and>
   formatSize Math_log 3145728 = ''3 MB'' \<and>
   (0 < bytes \<and> bytes < 1024 ^ 3 \<longrightarrow>
      (\<exists>i < 3. 1024 ^ i \<le> bytes \<and> bytes < 1024 ^ Suc i \<and>
         \<lfloor>js_div (Math_log (of_nat bytes)) (Math_log 1024)\<rfloor> = int i \<and>
         formatSize Math_log bytes =
           hundredths_text ((200 * bytes + 1024 ^ i) div (2 * 1024 ^ i)) @ '' '' @ sizes ! i \<and>
         \<bar>of_nat ((200 * bytes + 1024 ^ i) div (2 * 1024 ^ i)) / 100
            - of_nat bytes / of_nat (1024 ^ i)\<bar> \<le> (1 / 200 :: rat)))"
proof -
  have "\<exists>i < 3. 1024 ^ i \<le> bytes \<and> bytes < 1024 ^ Suc i \<and>
         \<lfloor>js_div (Math_log (of_nat bytes)) (Math_log 1024)\<rfloor> = int i \<and>
         formatSize Math_log bytes =
           hundredths_text ((200 * bytes + 1024 ^ i) div (2 * 1024 ^ i)) @ '' '' @ sizes ! i \<and>
         \<bar>of_nat ((200 * bytes + 1024 ^ i) div (2 * 1024 ^ i)) / 100
            - of_nat bytes / of_nat (1024 ^ i)\<bar> \<le> (1 / 200 :: rat)"
    if b: "0 < bytes" "bytes < 1024 ^ 3"
  proof -
    have "\<exists>i < 3. 1024 ^ i \<le> bytes \<and> bytes < 1024 ^ Suc i \<and>
         \<lfloor>js_div (Math_log (of_nat bytes)) (Math_log 1024)\<rfloor> = int i"
    proof -
      consider "bytes < 1024" | "1024 \<le> bytes" "bytes < 1024 ^ 2" | "1024 ^ 2 \<le> bytes"
        by linarith
      then show ?thesis
      proof cases
        case 1
        with unit_index(1) [OF assms b(1)] b(1) show ?thesis
          by (intro exI [of _ 0]) simp
      next
        case 2
        with unit_index(2) [OF assms] show ?thesis
          by (intro exI [of _ 1]) simp
      next
        case 3
        with unit_index(3) [OF assms] b(2) show ?thesis
          by (intro exI [of _ 2]) (simp add: numeral_2_eq_2 numeral_3_eq_3)
      qed
    qed
    then obtain i where i3: "i < 3" and bd: "1024 ^ i \<le> bytes" "bytes < 1024 ^ Suc i"
      and ix: "\<lfloor>js_div (Math_log (of_nat bytes)) (Math_log 1024)\<rfloor> = int i"
      by blast
    have "bytes \<le> 2 ^ 53"
    proof -
      have "(1024::nat) ^ 3 \<le> 2 ^ 53" by simp
      with b(2) show ?thesis by linarith
    qed
    with b(1) have "formatSize Math_log bytes =
        hundredths_text ((200 * bytes + 1024 ^ i) div (2 * 1024 ^ i))
          @ '' '' @ element_text sizes (int i)"
      using bd(1) ix by (rule formatSize_text)
    moreover have "element_text sizes (int i) = sizes ! i"
      using i3 by (simp add: element_text_def sizes_def)
    moreover have "\<bar>of_nat ((200 * bytes + 1024 ^ i) div (2 * 1024 ^ i)) / 100
         - of_nat bytes / of_nat (1024 ^ i)\<bar> \<le> (1 / 200 :: rat)"
      by (rule rounded_hundredths) simp
    ultimately show ?thesis using bd i3 ix by (intro exI [of _ i]) simp
  qed
  with formatSize_examples [OF assms] show ?thesis by blast
qed

text \<open>
  With the logarithm of the examples, 1234567 bytes are written as \<open>1.18 MB\<close>
  (1234567 / 1048576 is 1.1773...).
\<close>

theorem formatSize_units_witness:
  "log_ok step_log \<and> (0::nat) < 1234567 \<and> (1234567::nat) < 1024 ^ 3 \<and>
   formatSize step_log 1536 = ''1.5 KB'' \<and> formatSize step_log 1234567 = ''1.18 MB''"
proof -
  have a: "(0::nat) < 1234567 \<and> (1234567::nat) < 1024 ^ 3" by simp
  from formatSize_units [OF step_log_ok, of 1234567] a
  obtain i where i: "i < 3" "(1024::nat) ^ i \<le> 1234567" "(1234567::nat) < 1024 ^ Suc i"
    and t: "formatSize step_log 1234567 =
        hundredths_text ((200 * 1234567 + 1024 ^ i) div (2 * 1024 ^ i)) @ '' '' @ sizes ! i"
    and e: "formatSize step_log 1536 = ''1.5 KB''"
    by blast
  from i(1) have "i = 0 \<or> i = 1 \<or> i = 2" by linarith
  with i(2,3) have "i = 2" by auto
  with t have "formatSize step_log 1234567 = hundredths_text 118 @ '' '' @ sizes ! 2"
    by simp
  moreover have "hundredths_text 118 = ''1.18''"
    by (simp add: hundredths_text_def show_nat_digit digit_char_def)
  moreover have "sizes ! 2 = ''MB''" by (simp add: sizes_def)
  ultimately show ?thesis using a e step_log_ok by simp
qed

lemma step_log_index_30:
  "\<lfloor>js_div (step_log (of_nat 1073741824)) (step_log 1024)\<rfloor> = int 3"
  by (simp add: step_log_values quotient_30)

text \<open>
  The claim as it was written fails at 1073741824 bytes: the text is \<open>1 undefined\<close>, with
  no unit of the three. (\<open>step_log\<close> is read at 1024 and at 1073741824 only, where it has
  the values of fdlibm.)
\<close>

theorem formatSize_units_counterexample:
  "log_ok step_log \<and> formatSize step_log 1073741824 = ''1 undefined'' \<and>
   ''undefined'' \<notin> set sizes"
proof -
  have "formatSize step_log 1073741824 = ''1 undefined''"
    by (subst formatSize_text [OF _ _ _ step_log_index_30])
      (simp_all add: hundredths_text_def show_nat_digit digit_char_def element_text_def sizes_def)
  then show ?thesis using step_log_ok by (simp add: sizes_def)
qed

text \<open>
  C10. On an engine whose \<^verbatim>\<open>Math.log\<close> does not decrease and has the values of fdlibm at
  1024 and at 1073741824: for every byte count of at least 1073741824 the quotient of the
  logarithms, divided in doubles and rounded down, is 3 or more, the element read at that
  index is \<^verbatim>\<open>undefined\<close>, and the text ends with the word \<open>undefined\<close> in the place of
  a unit.
\<close>

theorem formatSize_undefined_unit:
  assumes "log_monotone Math_log" "Math_log 1024 = log_of_power 10"
    and "Math_log 1073741824 = log_of_power 30" "1073741824 \<le> bytes"
  shows "length sizes = 3 \<and> 3 \<le> \<lfloor>js_div (Math_log (of_nat bytes)) (Math_log 1024)\<rfloor> \<and>
         element_text sizes \<lfloor>js_div (Math_log (of_nat bytes)) (Math_log 1024)\<rfloor> = ''undefined'' \<and>
         formatSize Math_log bytes =
           number_to_string (parseFloat (toFixed 2
             (js_div (of_nat bytes)
                (power_int 1024 \<lfloor>js_div (Math_log (of_nat bytes)) (Math_log 1024)\<rfloor>))))
           @ '' undefined''"
proof -
  define i where "i = \<lfloor>js_div (Math_log (of_nat bytes)) (Math_log 1024)\<rfloor>"
  have "(of_nat 1073741824 :: rat) \<le> of_nat bytes"
    using assms(4) by (simp only: of_nat_le_iff)
  then have b: "(1073741824::rat) \<le> of_nat bytes" by simp
  have "(1::rat) \<le> 1073741824" by simp
  with assms(1) have "Math_log 1073741824 \<le> Math_log (of_nat bytes)"
    using b by (rule log_monotoneD)
  moreover have "0 \<le> log_of_power 30" by (simp add: log_of_power_30)
  ultimately have "js_div (log_of_power 30) (log_of_power 10)
      \<le> js_div (Math_log (of_nat bytes)) (Math_log 1024)"
    unfolding assms(2,3) using log_of_power_10_pos by (intro js_div_mono) simp_all
  then have "of_int 3 \<le> js_div (Math_log (of_nat bytes)) (Math_log 1024)"
    unfolding quotient_30 by simp
  then have i: "3 \<le> i" unfolding i_def by (simp only: le_floor_iff)
  then have u: "element_text sizes i = ''undefined''"
    by (simp add: element_text_def sizes_def)
  from assms(4) have "bytes \<noteq> 0" by simp
  with i u show ?thesis
    unfolding i_def [symmetric] by (simp add: formatSize_def Let_def sizes_def i_def [symmetric])
qed

lemma step_log_index_32:
  "\<lfloor>js_div (step_log (of_nat 5368709120)) (step_log 1024)\<rfloor> = int 3"
  by (simp add: step_log_values quotient_32 floor_rat_numeral)

text \<open>With the logarithm of the examples, 5368709120 bytes are written as \<open>5 undefined\<close>.\<close>

theorem formatSize_undefined_unit_witness:
  "log_monotone step_log \<and> step_log 1024 = log_of_power 10 \<and>
   step_log 1073741824 = log_of_power 30 \<and> (1073741824::nat) \<le> 5368709120 \<and>
   formatSize step_log 5368709120 = ''5 undefined''"
proof -
  have a: "(1073741824::nat) \<le> 5368709120" by simp
  from formatSize_undefined_unit [OF step_log_monotone step_log_values(3) step_log_values(7) a]
  have "formatSize step_log 5368709120 =
      number_to_string (parseFloat (toFixed 2
        (js_div (of_nat 5368709120)
          (power_int 1024 \<lfloor>js_div (step_log (of_nat 5368709120)) (step_log 1024)\<rfloor>))))
      @ '' undefined''"
    by blast
  also have "number_to_string (parseFloat (toFixed 2
        (js_div (of_nat 5368709120)
          (power_int 1024 \<lfloor>js_div (step_log (of_nat 5368709120)) (step_log 1024)\<rfloor>)))) =
      hundredths_text ((200 * 5368709120 + 1024 ^ 3) div (2 * 1024 ^ 3))"
    unfolding step_log_index_32 by (rule size_number) simp_all
  also have "\<dots> = ''5''"
    by (simp add: hundredths_text_def show_nat_digit digit_char_def)
  finally show ?thesis
    using step_log_monotone step_log_values(3) step_log_values(7) by simp
qed

section \<open>The savings of a batch\<close>

lemma foldl_js_add:
  "a + sum_list (map f imgs) \<le> 2 ^ 53 \<Longrightarrow>
   foldl (\<lambda>acc img. js_add acc (of_nat (f img))) (of_nat a) imgs = of_nat (a + sum_list (map f imgs))"
proof (induction imgs arbitrary: a)
  case Nil
  then show ?case by simp
next
  case (Cons x imgs)
  then have le: "a + f x \<le> 2 ^ 53" and rest: "(a + f x) + sum_list (map f imgs) \<le> 2 ^ 53"
    by simp_all
  have "js_add (of_nat a) (of_nat (f x)) = fl (of_nat (a + f x))"
    by (simp add: js_add_def)
  also have "\<dots> = of_nat (a + f x)" using le by (rule fl_of_nat)
  finally have "js_add (of_nat a) (of_nat (f x)) = of_nat (a + f x)" .
  with Cons.IH [OF rest] show ?case by (simp add: add.assoc)
qed

lemma round_near:
  fixes m w :: nat and z :: rat
  assumes w: "0 < w" and close: "\<bar>z - of_nat m / of_nat w\<bar> < 1 / (2 * of_nat w)" and z: "0 \<le> z"
  shows "\<bar>of_nat (nat \<lfloor>z + 1 / 2\<rfloor>) - of_nat m / of_nat w\<bar> \<le> (1 / 2 :: rat)"
proof -
  define n where "n = nat \<lfloor>z + 1 / 2\<rfloor>"
  have "0 \<le> \<lfloor>z + 1 / 2\<rfloor>" using z by simp
  then have fl: "of_nat n = (of_int \<lfloor>z + 1 / 2\<rfloor> :: rat)" unfolding n_def by simp
  have n: "of_nat n \<le> z + 1 / 2" "z + 1 / 2 < of_nat n + 1"
    unfolding fl by linarith+
  have wr: "(0::rat) < of_nat w" using w by simp
  from close have c0: "z - of_nat m / of_nat w < 1 / (2 * of_nat w)"
    "of_nat m / of_nat w - z < 1 / (2 * of_nat w)"
    by linarith+
  have e1: "(z - of_nat m / of_nat w) * (2 * of_nat w) = z * (2 * of_nat w) - 2 * of_nat m"
    "(of_nat m / of_nat w - z) * (2 * of_nat w) = 2 * of_nat m - z * (2 * of_nat w)"
    "1 / (2 * of_nat w) * (2 * of_nat w) = (1::rat)"
    using wr by (simp_all add: field_simps)
  have "(z - of_nat m / of_nat w) * (2 * of_nat w) < 1 / (2 * of_nat w) * (2 * of_nat w)"
    "(of_nat m / of_nat w - z) * (2 * of_nat w) < 1 / (2 * of_nat w) * (2 * of_nat w)"
    using c0 wr by (intro mult_strict_right_mono; simp)+
  then have c: "z * (2 * of_nat w) < 2 * of_nat m + 1" "2 * of_nat m - 1 < z * (2 * of_nat w)"
    unfolding e1 by linarith+
  have "of_nat n * (2 * of_nat w) \<le> (z + 1 / 2) * (2 * of_nat w)"
    using n(1) wr by (intro mult_right_mono) simp_all
  also have "\<dots> = z * (2 * of_nat w) + of_nat w" by (simp add: algebra_simps)
  finally have "(of_nat n :: rat) * (2 * of_nat w) < 2 * of_nat m + 1 + of_nat w"
    using c(1) by linarith
  then have "(of_nat (n * (2 * w)) :: rat) < of_nat (2 * m + 1 + w)" by simp
  then have "n * (2 * w) < 2 * m + 1 + w" by (simp only: of_nat_less_iff)
  then have "n * (2 * w) \<le> 2 * m + w" by simp
  then have "(of_nat (n * (2 * w)) :: rat) \<le> of_nat (2 * m + w)" by (simp only: of_nat_le_iff)
  then have up: "(of_nat n :: rat) * (2 * of_nat w) \<le> 2 * of_nat m + of_nat w" by simp
  have "(z + 1 / 2) * (2 * of_nat w) < (of_nat n + 1) * (2 * of_nat w)"
    using n(2) wr by (intro mult_strict_right_mono) simp_all
  moreover have "(z + 1 / 2) * (2 * of_nat w) = z * (2 * of_nat w) + of_nat w"
    by (simp add: algebra_simps)
  ultimately have "2 * of_nat m - 1 + of_nat w < ((of_nat n :: rat) + 1) * (2 * of_nat w)"
    using c(2) by linarith
  then have "(of_nat (2 * m + w) :: rat) < of_nat ((n + 1) * (2 * w) + 1)"
    by (simp add: algebra_simps)
  then have "2 * m + w < (n + 1) * (2 * w) + 1" by (simp only: of_nat_less_iff)
  then have "2 * m + w \<le> (n + 1) * (2 * w)" by simp
  then have "(of_nat (2 * m + w) :: rat) \<le> of_nat ((n + 1) * (2 * w))" by (simp only: of_nat_le_iff)
  then have lo: "2 * of_nat m \<le> (of_nat n :: rat) * (2 * of_nat w) + of_nat w"
    by (simp add: algebra_simps)
  define D :: rat where "D = of_nat n * (2 * of_nat w) - 2 * of_nat m"
  have D: "\<bar>D\<bar> \<le> of_nat w" unfolding D_def using up lo by (simp add: abs_le_iff)
  have eq: "of_nat n - of_nat m / of_nat w = D / (2 * of_nat w)"
    unfolding D_def using wr by (simp add: field_simps)
  have "\<bar>D / (2 * of_nat w)\<bar> = \<bar>D\<bar> / (2 * of_nat w)"
    using wr by (simp only: abs_divide)
  also have "\<dots> \<le> of_nat w / (2 * of_nat w)"
    using D wr by (intro divide_right_mono) simp_all
  also have "\<dots> = 1 / 2" using wr by simp
  finally show ?thesis unfolding eq n_def [symmetric] .
qed

lemma pow2_neg_le40: "power_int (2::rat) (- 1022) \<le> 1 / 2 ^ 40"
proof -
  have "power_int (2::rat) (- 1022) \<le> power_int 2 (- 40)"
    by (rule power_int_increasing) simp_all
  also have "power_int (2::rat) (- 40) = 1 / 2 ^ 40"
    by (simp add: power_int_def inverse_eq_divide power_divide)
  finally show ?thesis .
qed

lemma savings_close:
  fixes d t :: nat
  assumes d: "0 < d" "d \<le> t" and t: "t \<le> 2 ^ 40"
  defines "y \<equiv> js_mul (js_div (of_nat d) (of_nat t)) 100"
  shows "0 < y" and "\<bar>y * 10 - of_nat (1000 * d) / of_nat t\<bar> < 1 / (2 * of_nat t)"
proof -
  define a :: rat where "a = of_nat d / of_nat t"
  define q where "q = fl a"
  define b where "b = q * 100"
  define x :: rat where "x = 100 * a"
  have t0: "0 < t" using d by simp
  have tr: "(0::rat) < of_nat t" using t0 by simp
  have "(of_nat t :: rat) \<le> of_nat (2 ^ 40)" using t by (simp only: of_nat_le_iff)
  then have t40: "(of_nat t :: rat) \<le> 2 ^ 40" by simp
  have "(of_nat 1 :: rat) \<le> of_nat d" "(of_nat d :: rat) \<le> of_nat t"
    using d by (simp_all only: of_nat_le_iff)
  then have dr: "(1::rat) \<le> of_nat d" "(of_nat d :: rat) \<le> of_nat t" by simp_all
  have a_hi: "a \<le> 1" unfolding a_def using dr tr by simp
  have "1 / 2 ^ 40 \<le> 1 / (of_nat t :: rat)"
    using t40 tr by (intro divide_left_mono) simp_all
  also have "\<dots> \<le> a" unfolding a_def using dr(1) tr by (intro divide_right_mono) simp_all
  finally have a_lo: "1 / 2 ^ 40 \<le> a" .
  then have a_pos: "0 < a" by (rule less_le_trans [rotated]) simp
  have "power_int 2 (- 1022) \<le> a" using pow2_neg_le40 a_lo by (rule order_trans)
  then have qa: "\<bar>q - a\<bar> \<le> a / 2 ^ 53" unfolding q_def by (rule fl_error)
  have q_lo: "a / 2 \<le> q" using near_pos [OF a_pos qa] by simp
  have "a \<le> a / 2 * 100" using a_pos by simp
  also have "\<dots> \<le> b" unfolding b_def using q_lo by simp
  finally have b_lo: "a \<le> b" .
  with a_pos have b_pos: "0 < b" by linarith
  from pow2_neg_le40 a_lo b_lo have "power_int 2 (- 1022) \<le> b" by linarith
  then have yb: "\<bar>fl b - b\<bar> \<le> b / 2 ^ 53" by (rule fl_error)
  have y_eq: "y = fl b" unfolding y_def b_def q_def a_def js_mul_def js_div_def ..
  from near_pos(1) [OF b_pos yb] b_pos show "0 < y" unfolding y_eq by simp
  have x_pos: "0 < x" unfolding x_def using a_pos by simp
  have "\<bar>b - x\<bar> = 100 * \<bar>q - a\<bar>" unfolding b_def x_def by (simp add: abs_if)
  also have "\<dots> \<le> 100 * (a / 2 ^ 53)" using qa by (intro mult_left_mono) simp_all
  finally have bx: "\<bar>b - x\<bar> \<le> x / 2 ^ 53" unfolding x_def by simp
  have "b \<le> 2 * x" using x_pos bx by (rule near_pos)
  then have "b / 2 ^ 53 \<le> 2 * x / 2 ^ 53" by (intro divide_right_mono) simp_all
  with yb bx have "\<bar>y - x\<bar> \<le> 3 * x / 2 ^ 53" unfolding y_eq by linarith
  moreover have "x \<le> 100" unfolding x_def using a_hi by simp
  then have "3 * x / 2 ^ 53 \<le> 3 * 100 / 2 ^ 53" by (intro divide_right_mono) simp_all
  ultimately have "\<bar>y - x\<bar> \<le> 300 / 2 ^ 53" by simp
  then have e: "\<bar>y * 10 - x * 10\<bar> \<le> 3000 / 2 ^ 53" by linarith
  have "3000 / 2 ^ 53 < 1 / (2 * (2::rat) ^ 40)" by simp
  also have "\<dots> \<le> 1 / (2 * of_nat t)" using t40 tr by (intro divide_left_mono) simp_all
  finally have "3000 / 2 ^ 53 < 1 / (2 * (of_nat t :: rat))" .
  with e have "\<bar>y * 10 - x * 10\<bar> < 1 / (2 * of_nat t)" by linarith
  moreover have "x * 10 = of_nat (1000 * d) / of_nat t" unfolding x_def a_def by simp
  ultimately show "\<bar>y * 10 - of_nat (1000 * d) / of_nat t\<bar> < 1 / (2 * of_nat t)" by simp
qed

lemma toFixed_1:
  "0 \<le> y \<Longrightarrow> toFixed 1 y =
     show_nat (nat \<lfloor>y * 10 + 1 / 2\<rfloor> div 10) @ ''.'' @ [digit_char (nat \<lfloor>y * 10 + 1 / 2\<rfloor> mod 10)]"
  by (simp add: toFixed_def Let_def)

lemma calculateTotalSavings_eq:
  fixes imgs :: "ProcessedImage list"
  defines "t \<equiv> sum_list (map originalSize imgs)" and "c \<equiv> sum_list (map size_p imgs)"
  assumes t: "0 < t" "t \<le> 2 ^ 40" and c: "c \<le> t"
  shows "calculateTotalSavings imgs =
           toFixed 1 (js_mul (js_div (of_nat (t - c)) (of_nat t)) 100)"
proof -
  have "(2::nat) ^ 40 \<le> 2 ^ 53" by simp
  with t(2) c have b: "0 + t \<le> 2 ^ 53" "0 + c \<le> 2 ^ 53" "t - c \<le> 2 ^ 53" by linarith+
  have st: "foldl (\<lambda>acc img. js_add acc (of_nat (originalSize img))) 0 imgs = of_nat t"
    using foldl_js_add [of 0 originalSize imgs] b(1) unfolding t_def by simp
  have sc: "foldl (\<lambda>acc img. js_add acc (of_nat (size_p img))) 0 imgs = of_nat c"
    using foldl_js_add [of 0 size_p imgs] b(2) unfolding c_def by simp
  have "js_sub (of_nat t) (of_nat c) = fl (of_nat (t - c))"
    using c by (simp add: js_sub_def of_nat_diff)
  also have "\<dots> = of_nat (t - c)" using b(3) by (rule fl_of_nat)
  finally have sub: "js_sub (of_nat t) (of_nat c) = of_nat (t - c)" .
  show ?thesis
    unfolding calculateTotalSavings_def Let_def t_def [symmetric] c_def [symmetric] st sc sub
    using t(1) by simp
qed

lemma savings_rounded:
  fixes imgs :: "ProcessedImage list"
  defines "t \<equiv> sum_list (map originalSize imgs)" and "c \<equiv> sum_list (map size_p imgs)"
  assumes t: "0 < t" "t \<le> 2 ^ 40" and c: "c \<le> t"
  shows "\<exists>n. calculateTotalSavings imgs = show_nat (n div 10) @ ''.'' @ [digit_char (n mod 10)] \<and>
           \<bar>of_nat n / 10 - (of_nat t - of_nat c) / of_nat t * 100\<bar> \<le> (1 / 20 :: rat)"
proof -
  define y where "y = js_mul (js_div (of_nat (t - c)) (of_nat t)) 100"
  define n where "n = nat \<lfloor>y * 10 + 1 / 2\<rfloor>"
  have eq: "calculateTotalSavings imgs = toFixed 1 y"
    unfolding y_def t_def c_def using t c unfolding t_def c_def by (rule calculateTotalSavings_eq)
  have tr: "(0::rat) < of_nat t" using t(1) by simp
  have "0 \<le> y \<and> \<bar>y * 10 - of_nat (1000 * (t - c)) / of_nat t\<bar> < 1 / (2 * of_nat t)"
  proof (cases "t - c = 0")
    case True
    then have "y = 0" unfolding y_def by (simp add: js_div_def js_mul_def fl_def)
    with True tr show ?thesis by simp
  next
    case False
    then have d: "0 < t - c" "t - c \<le> t" by simp_all
    from savings_close [OF d t(2)] show ?thesis unfolding y_def by simp
  qed
  then have y0: "0 \<le> y"
    and close: "\<bar>y * 10 - of_nat (1000 * (t - c)) / of_nat t\<bar> < 1 / (2 * of_nat t)"
    by blast+
  have y10: "0 \<le> y * 10" using y0 by simp
  from round_near [OF t(1) close y10]
  have r: "\<bar>of_nat n - of_nat (1000 * (t - c)) / of_nat t\<bar> \<le> (1 / 2 :: rat)"
    unfolding n_def .
  have od: "(of_nat (t - c) :: rat) = of_nat t - of_nat c" using c by (simp add: of_nat_diff)
  have m: "(of_nat (1000 * (t - c)) :: rat) / of_nat t = 10 * ((of_nat t - of_nat c) / of_nat t * 100)"
    unfolding of_nat_mult od by simp
  from r have "\<bar>of_nat n - 10 * ((of_nat t - of_nat c) / of_nat t * 100)\<bar> \<le> (1 / 2 :: rat)"
    unfolding m .
  then have "\<bar>of_nat n / 10 - (of_nat t - of_nat c) / of_nat t * 100\<bar> \<le> (1 / 20 :: rat)"
    by linarith
  moreover have "calculateTotalSavings imgs = show_nat (n div 10) @ ''.'' @ [digit_char (n mod 10)]"
    unfolding eq n_def using y0 by (rule toFixed_1)
  ultimately show ?thesis by blast
qed

lemma two_results_sums:
  "sum_list (map originalSize two_results) = 3000" "sum_list (map size_p two_results) = 2300"
  by (simp_all add: two_results_def)

lemma savings_double: "\<lfloor>fl (fl (7 / 30) * 100) * 10 + 1 / 2\<rfloor> = 233"
  by code_simp

lemma savings_example: "calculateTotalSavings two_results = ''23.3''"
proof -
  have "calculateTotalSavings two_results = toFixed 1 (js_mul (js_div (of_nat (3000 - 2300)) (of_nat 3000)) 100)"
    using calculateTotalSavings_eq [of two_results] unfolding two_results_sums by simp
  also have "js_mul (js_div (of_nat (3000 - 2300)) (of_nat 3000)) 100 = fl (fl (7 / 30) * 100)"
    by (simp add: js_mul_def js_div_def)
  finally have e: "calculateTotalSavings two_results = toFixed 1 (fl (fl (7 / 30) * 100))" .
  have s23: "show_nat 23 = ''23''"
    by (subst show_nat.simps) (simp add: show_nat_digit digit_char_def)
  have pos: "\<not> fl (fl (7 / 30) * 100) < 0"
  proof
    assume "fl (fl (7 / 30) * 100) < 0"
    then have "\<lfloor>fl (fl (7 / 30) * 100) * 10 + 1 / 2\<rfloor> \<le> 0" by (simp add: floor_le_iff)
    with savings_double show False by simp
  qed
  then have "\<bar>fl (fl (7 / 30) * 100)\<bar> = fl (fl (7 / 30) * 100)" by simp
  then show ?thesis
    unfolding e toFixed_def Let_def using pos
    by (simp add: savings_double s23 digit_char_def)
qed

text \<open>
  Every result of \<open>processImage\<close> is at most as large as its original, so the sum of the
  final sizes of a list of results is at most the sum of the original sizes.
\<close>

lemma processImage_size_le: "processImage pf file = Some r \<Longrightarrow> size_p r \<le> originalSize r"
  by (cases "decode pf (readAsDataURL file)")
    (auto simp: processImage_def Let_def split: option.splits if_splits)

text \<open>With no results, or originals of no bytes, the division is 0 / 0.\<close>

lemma savings_of_nothing: "calculateTotalSavings [] = ''NaN''"
  by (simp add: calculateTotalSavings_def)

text \<open>
  C8. The two results of the example give \<open>23.3\<close>. In general, for results whose original
  sizes add up to more than 0 and at most \<open>2^40\<close> bytes, and whose final sizes add up to no
  more than that, the figure is a number of tenths \<open>n\<close> written with one fraction digit, and
  \<open>n / 10\<close> is \<open>(\<Sum>original - \<Sum>final) / \<Sum>original * 100\<close> rounded to one decimal place:
  at most 1/20 away from it.
\<close>

theorem total_savings_percentage:
  "calculateTotalSavings two_results = ''23.3'' \<and>
   (0 < sum_list (map originalSize imgs) \<and> sum_list (map originalSize imgs) \<le> 2 ^ 40 \<and>
    sum_list (map size_p imgs) \<le> sum_list (map originalSize imgs) \<longrightarrow>
    (\<exists>n. calculateTotalSavings imgs = show_nat (n div 10) @ ''.'' @ [digit_char (n mod 10)] \<and>
         \<bar>of_nat n / 10 -
            (of_nat (sum_list (map originalSize imgs)) - of_nat (sum_list (map size_p imgs)))
              / of_nat (sum_list (map originalSize imgs)) * 100\<bar> \<le> (1 / 20 :: rat)))"
  using savings_example savings_rounded [of imgs] by blast

text \<open>The two results of the example satisfy the conditions.\<close>

theorem total_savings_percentage_witness:
  "0 < sum_list (map originalSize two_results) \<and> sum_list (map originalSize two_results) \<le> 2 ^ 40 \<and>
   sum_list (map size_p two_results) \<le> sum_list (map originalSize two_results) \<and>
   (\<exists>n. calculateTotalSavings two_results = show_nat (n div 10) @ ''.'' @ [digit_char (n mod 10)] \<and>
        \<bar>of_nat n / 10 - (3000 - 2300) / 3000 * 100\<bar> \<le> (1 / 20 :: rat))"
proof -
  have a: "0 < sum_list (map originalSize two_results) \<and>
      sum_list (map originalSize two_results) \<le> 2 ^ 40 \<and>
      sum_list (map size_p two_results) \<le> sum_list (map originalSize two_results)"
    unfolding two_results_sums by simp
  with total_savings_percentage [of two_results]
  have "\<exists>n. calculateTotalSavings two_results = show_nat (n div 10) @ ''.'' @ [digit_char (n mod 10)] \<and>
         \<bar>of_nat n / 10 -
            (of_nat (sum_list (map originalSize two_results)) - of_nat (sum_list (map size_p two_results)))
              / of_nat (sum_list (map originalSize two_results)) * 100\<bar> \<le> (1 / 20 :: rat)"
    by blast
  then have "\<exists>n. calculateTotalSavings two_results = show_nat (n div 10) @ ''.'' @ [digit_char (n mod 10)] \<and>
        \<bar>of_nat n / 10 - (3000 - 2300) / 3000 * 100\<bar> \<le> (1 / 20 :: rat)"
    unfolding two_results_sums by simp
  with a show ?thesis by blast
qed

end
